theory Spec2Isabelle
  imports Complex_Main "HOL-Library.Word"
begin

chapter \<open>The program\<close>

section \<open>Results, errors and the random source\<close>

text \<open>
  The simulation of \<^verbatim>\<open>run_simulation.py\<close> draws from NumPy's global random
  generator. The embedding makes the generator an explicit input: a finite list of
  natural numbers (the draws), one consumed by each call of \<^verbatim>\<open>np.random.*\<close>.
  A call that needs a draw when the list is empty yields \<open>OutOfDraws\<close>: the run has
  not finished within the draws supplied. A Python exception is \<open>Raises\<close>.
\<close>

datatype py_error = ValueError | IndexError | KeyError

datatype 'a outcome = Returns 'a | Raises py_error | OutOfDraws

type_synonym draws = "nat list"

text \<open>
  \<^verbatim>\<open>np.random.choice(a)\<close> on a one-dimensional \<open>a\<close>: a uniformly chosen element;
  NumPy raises \<^verbatim>\<open>ValueError\<close> when \<open>a\<close> is empty. Every element can be chosen.
\<close>

fun np_choice :: "'a list \<Rightarrow> draws \<Rightarrow> ('a \<times> draws) outcome" where
  "np_choice [] t = Raises ValueError"
| "np_choice (x # xs) [] = OutOfDraws"
| "np_choice (x # xs) (r # t) = Returns ((x # xs) ! (r mod length (x # xs)), t)"

text \<open>
  \<^verbatim>\<open>np.random.randint(low, high)\<close>: an integer of the half-open interval
  \<open>[low, high)\<close>; NumPy raises \<^verbatim>\<open>ValueError\<close> when \<open>low \<ge> high\<close>.
\<close>

fun np_randint :: "int \<Rightarrow> int \<Rightarrow> draws \<Rightarrow> (int \<times> draws) outcome" where
  "np_randint low high t =
     (if high \<le> low then Raises ValueError
      else (case t of
              [] \<Rightarrow> OutOfDraws
            | r # t' \<Rightarrow> Returns (low + int (r mod nat (high - low)), t')))"

text \<open>
  \<^verbatim>\<open>x = np.random.uniform(0, 1); i = int(n_variants * x)\<close>: with \<open>x\<close> in \<open>[0, 1)\<close>
  the index \<open>i\<close> is one of \<open>0, ..., n_variants - 1\<close>, and \<open>0\<close> when \<open>n_variants = 0\<close>.
  The model draws the index itself.
\<close>

fun uniform_index :: "nat \<Rightarrow> draws \<Rightarrow> (nat \<times> draws) outcome" where
  "uniform_index n [] = OutOfDraws"
| "uniform_index n (r # t) = Returns ((if n = 0 then 0 else r mod n), t)"

section \<open>MAC-to-positions dictionaries\<close>

text \<open>
  A \<^verbatim>\<open>defaultdict(list)\<close> from a MAC value to the list of variant positions that
  have it, as an association list in insertion order. \<open>dict_append d k v\<close> is
  \<^verbatim>\<open>d[k].append(v)\<close>; \<open>dict_get d k\<close> is \<^verbatim>\<open>d[k]\<close>, the empty list for a missing key.
\<close>

type_synonym posmap = "(int \<times> nat list) list"

fun dict_append :: "posmap \<Rightarrow> int \<Rightarrow> nat \<Rightarrow> posmap" where
  "dict_append [] k v = [(k, [v])]"
| "dict_append ((k', ps) # d) k v =
     (if k' = k then (k', ps @ [v]) # d else (k', ps) # dict_append d k v)"

definition dict_get :: "posmap \<Rightarrow> int \<Rightarrow> nat list" where
  "dict_get d k = (case map_of d k of None \<Rightarrow> [] | Some ps \<Rightarrow> ps)"

definition dict_keys :: "posmap \<Rightarrow> int list" where
  "dict_keys d = map fst d"

section \<open>The Variant Selector\<close>

text \<open>
  A call that returns has consumed a draw. The loops below end because the list of draws
  gets shorter with every pass.
\<close>

lemma np_choice_shorter:
  "np_choice xs t = Returns (x, t') \<Longrightarrow> length t' < length t"
  by (cases xs; cases t) auto

text \<open>
  The first loop of \<^verbatim>\<open>select_variants_for_cmac\<close> (lines 347-354): draw a MAC value
  from the eligible ones, accept it when the running sum stays within the target, and
  shrink the eligible values to those that still fit.
\<close>

function select_combo ::
  "int list \<Rightarrow> int \<Rightarrow> int \<Rightarrow> int list \<Rightarrow> draws \<Rightarrow> (int list \<times> draws) outcome" where
  "select_combo macs cmac current_cmac combo t =
     (if current_cmac < cmac then
        (case np_choice macs t of
           Raises e \<Rightarrow> Raises e
         | OutOfDraws \<Rightarrow> OutOfDraws
         | Returns (mac_, t') \<Rightarrow>
             if current_cmac + mac_ \<le> cmac then
               select_combo (filter (\<lambda>m. m \<le> cmac - (current_cmac + mac_)) macs) cmac
                 (current_cmac + mac_) (combo @ [mac_]) t'
             else select_combo macs cmac current_cmac combo t')
      else Returns (combo, t))"
  by pat_completeness auto

termination
  by (relation "measure (\<lambda>(macs, cmac, current_cmac, combo, t). length t)")
     (auto dest: np_choice_shorter)

declare select_combo.simps [simp del]

text \<open>
  The second loop (lines 356-362): for each accepted MAC value one position, chosen
  from a window of at most 20 entries of its position list.
\<close>

fun pick_variants :: "posmap \<Rightarrow> int list \<Rightarrow> draws \<Rightarrow> (nat list \<times> draws) outcome" where
  "pick_variants mac_positions [] t = Returns ([], t)"
| "pick_variants mac_positions (mac # combo) t =
     (let n_variants = length (dict_get mac_positions mac) in
      case uniform_index n_variants t of
        Raises e \<Rightarrow> Raises e
      | OutOfDraws \<Rightarrow> OutOfDraws
      | Returns (i, t1) \<Rightarrow>
          (let j = min (i + 20) n_variants in
           case np_choice (take (j - i) (drop i (dict_get mac_positions mac))) t1 of
             Raises e \<Rightarrow> Raises e
           | OutOfDraws \<Rightarrow> OutOfDraws
           | Returns (v, t2) \<Rightarrow>
               (case pick_variants mac_positions combo t2 of
                  Raises e \<Rightarrow> Raises e
                | OutOfDraws \<Rightarrow> OutOfDraws
                | Returns (vs, t3) \<Rightarrow> Returns (v # vs, t3))))"

definition select_variants_for_cmac ::
  "posmap \<Rightarrow> int \<Rightarrow> draws \<Rightarrow> (nat list \<times> draws) outcome" where
  "select_variants_for_cmac mac_positions cmac t =
     (let macs = filter (\<lambda>m. m \<le> cmac) (dict_keys mac_positions) in
      case select_combo macs cmac 0 [] t of
        Raises e \<Rightarrow> Raises e
      | OutOfDraws \<Rightarrow> OutOfDraws
      | Returns (combo, t') \<Rightarrow> pick_variants mac_positions combo t')"

text \<open>
  A dictionary agrees with a MAC vector when every position listed under a key is a
  position of the vector that holds this MAC value.
\<close>

definition consistent :: "int list \<Rightarrow> posmap \<Rightarrow> bool" where
  "consistent mac d = list_all (\<lambda>(m, ps). list_all (\<lambda>p. p < length mac \<and> mac ! p = m) ps) d"

text \<open>
  The cumulative MAC of a variant set: the sum of the MACs of its members, members
  counted with multiplicity, in the integers.
\<close>

definition cmac_of :: "int list \<Rightarrow> nat list \<Rightarrow> int" where
  "cmac_of mac selected_variants = sum_list (map (\<lambda>v. mac ! v) selected_variants)"

text \<open>
  \<^verbatim>\<open>np.sum(mac[selected_variants])\<close> on the \<^verbatim>\<open>int64\<close> MAC vector: numpy adds in 64-bit
  two's complement, so the sum is the integer sum wrapped into \<open>[-2^63, 2^63)\<close>.
\<close>

definition np_sum_int64 :: "int list \<Rightarrow> nat list \<Rightarrow> int" where
  "np_sum_int64 mac selected_variants =
     sint (sum_list (map (\<lambda>v. (word_of_int (mac ! v) :: 64 word)) selected_variants))"

section \<open>The fixed cMAC bins\<close>

type_synonym cmac_bin = "int \<times> int"

definition cmac_bins :: "cmac_bin list" where
  "cmac_bins = [(2, 2), (3, 3), (4, 4), (5, 5), (6, 7), (8, 9), (10, 11), (12, 14), (15, 20),
                (21, 30), (31, 60), (61, 100), (101, 500), (501, 1000)]"

section \<open>Mask Builder, null mode\<close>

text \<open>Taking one element out of a non-empty list leaves a shorter list.\<close>

lemma permute_measure:
  "xs \<noteq> [] \<Longrightarrow> r mod length xs + (length xs - Suc (r mod length xs)) < length xs"
proof -
  assume "xs \<noteq> []"
  then have "r mod length xs < length xs" by simp
  then show ?thesis by arith
qed

text \<open>
  \<^verbatim>\<open>np.random.permutation(n)\<close>: a random order of \<open>0, ..., n - 1\<close>. One draw \<open>r\<close>
  encodes the order: its residue picks the next element among those left, its quotient
  orders the rest. Every order of the list is the image of some draw.
\<close>

function permute :: "nat \<Rightarrow> 'a list \<Rightarrow> 'a list" where
  "permute r xs =
     (if xs = [] then []
      else (let k = r mod length xs in
            (xs ! k) # permute (r div length xs) (take k xs @ drop (Suc k) xs)))"
  by pat_completeness auto

termination
  by (relation "measure (\<lambda>(r, xs). length xs)") (auto simp: Let_def permute_measure)

declare permute.simps [simp del]

fun np_permutation :: "nat \<Rightarrow> draws \<Rightarrow> (nat list \<times> draws) outcome" where
  "np_permutation n [] = OutOfDraws"
| "np_permutation n (r # t) = Returns (permute r [0..<n], t)"

text \<open>
  The window scan of lines 251-259 over one permutation. The source computes
  \<^verbatim>\<open>skip_size = int(window_size * 0.8) + 1\<close> in floating point before the loop; for the
  window widths that occur (at most 1000) this is \<open>window_size * 4 div 5 + 1\<close>.
  The result is the list \<open>output\<close> after the scan; the scan stops early once
  \<open>n_genes\<close> sets are stored.
\<close>

function scan_windows ::
  "int list \<Rightarrow> cmac_bin \<Rightarrow> int \<Rightarrow> nat list \<Rightarrow> nat \<Rightarrow> nat \<Rightarrow> nat \<Rightarrow> nat list list
     \<Rightarrow> nat list list" where
  "scan_windows mac bin n_genes permuted_variant_idxs window_size n_variants start output =
     (let skip_size = window_size * 4 div 5 + 1 in
      if start + window_size < n_variants then
        (let end_pos = start + window_size;
             selected_variants = take (end_pos - start) (drop start permuted_variant_idxs);
             cmac = np_sum_int64 mac selected_variants in
         if fst bin \<le> cmac \<and> cmac \<le> snd bin then
           (if n_genes \<le> int (length (output @ [selected_variants]))
            then output @ [selected_variants]
            else scan_windows mac bin n_genes permuted_variant_idxs window_size n_variants
                   (start + skip_size) (output @ [selected_variants]))
         else scan_windows mac bin n_genes permuted_variant_idxs window_size n_variants
                (start + skip_size) output)
      else output)"
  by pat_completeness auto

termination
  by (relation "measure (\<lambda>(mac, bin, n_genes, p, w, n, start, output). n - start)") auto

declare scan_windows.simps [simp del]

text \<open>A permutation and a random integer consume a draw each.\<close>

lemma np_permutation_shorter:
  "np_permutation n t = Returns (p, t') \<Longrightarrow> length t' < length t"
  by (cases t) auto

lemma np_randint_shorter:
  "np_randint low high t = Returns (x, t') \<Longrightarrow> length t' < length t"
  by (cases t) (auto split: if_splits)

declare np_randint.simps [simp del]

text \<open>
  The \<^verbatim>\<open>while True\<close> loop of lines 246-261 for one bin: a fresh permutation and a
  fresh window width for every pass, until \<open>n_genes\<close> sets are stored.
\<close>

function null_bin_loop ::
  "int list \<Rightarrow> cmac_bin \<Rightarrow> int \<Rightarrow> nat list \<Rightarrow> nat \<Rightarrow> int \<times> int \<Rightarrow> draws \<Rightarrow> nat list list
     \<Rightarrow> (nat list list \<times> draws) outcome" where
  "null_bin_loop mac bin n_genes variant_idxs n_variants window_range t output =
     (case np_permutation n_variants t of
        Raises e \<Rightarrow> Raises e
      | OutOfDraws \<Rightarrow> OutOfDraws
      | Returns (perm, t1) \<Rightarrow>
          (case np_randint (fst window_range) (snd window_range) t1 of
             Raises e \<Rightarrow> Raises e
           | OutOfDraws \<Rightarrow> OutOfDraws
           | Returns (window_size, t2) \<Rightarrow>
               (let permuted_variant_idxs = map (\<lambda>i. variant_idxs ! i) perm;
                    output' = scan_windows mac bin n_genes permuted_variant_idxs
                                (nat window_size) n_variants 0 output in
                if n_genes \<le> int (length output') then Returns (output', t2)
                else null_bin_loop mac bin n_genes variant_idxs n_variants window_range
                       t2 output')))"
  by pat_completeness auto

termination
  by (relation "measure (\<lambda>(mac, bin, n_genes, vi, n, wr, t, output). length t)")
     (auto dest!: np_permutation_shorter np_randint_shorter)

declare null_bin_loop.simps [simp del]

text \<open>The loop over the bins of one chromosome (lines 243-262).\<close>

fun null_bins ::
  "int list \<Rightarrow> int \<Rightarrow> nat list \<Rightarrow> nat \<Rightarrow> cmac_bin list \<Rightarrow> draws
     \<Rightarrow> ((cmac_bin \<times> nat list list) list \<times> draws) outcome" where
  "null_bins mac n_genes variant_idxs n_variants [] t = Returns ([], t)"
| "null_bins mac n_genes variant_idxs n_variants (bin # bins) t =
     (let window_range = (max 2 (fst bin div 10), snd bin + 1) in
      case null_bin_loop mac bin n_genes variant_idxs n_variants window_range t [] of
        Raises e \<Rightarrow> Raises e
      | OutOfDraws \<Rightarrow> OutOfDraws
      | Returns (output, t1) \<Rightarrow>
          (case null_bins mac n_genes variant_idxs n_variants bins t1 of
             Raises e \<Rightarrow> Raises e
           | OutOfDraws \<Rightarrow> OutOfDraws
           | Returns (gene_numeric_idxs, t2) \<Rightarrow> Returns ((bin, output) # gene_numeric_idxs, t2)))"

text \<open>
  The loop over the chromosomes (lines 237-263). \<open>mac_dict\<close> is the dictionary of MAC
  vectors in insertion order. The per-chromosome quotas \<open>n_genes_chr_list\<close> are a
  floating-point expression in the source (line 235, the share of the chromosome in
  all variants times \<^verbatim>\<open>cmac_bins_count\<close>, cast to an integer); the model takes the
  resulting list of integers as an input.
\<close>

type_synonym masks = "(nat \<times> (cmac_bin \<times> nat list list) list) list"

fun null_chrs ::
  "(nat \<times> int list) list \<Rightarrow> nat list \<Rightarrow> int list \<Rightarrow> (nat \<times> nat) list \<Rightarrow> draws
     \<Rightarrow> (masks \<times> draws) outcome" where
  "null_chrs mac_dict n_variants_list n_genes_chr_list [] t = Returns ([], t)"
| "null_chrs mac_dict n_variants_list n_genes_chr_list ((i, chr) # rest) t =
     (case map_of mac_dict chr of
        None \<Rightarrow> Raises KeyError
      | Some mac \<Rightarrow>
          if length n_variants_list \<le> i \<or> length n_genes_chr_list \<le> i then Raises IndexError
          else
            (let n_variants = n_variants_list ! i;
                 n_genes = n_genes_chr_list ! i;
                 variant_idxs = [0..<n_variants] in
             case null_bins mac n_genes variant_idxs n_variants cmac_bins t of
               Raises e \<Rightarrow> Raises e
             | OutOfDraws \<Rightarrow> OutOfDraws
             | Returns (gene_numeric_idxs, t1) \<Rightarrow>
                 (case null_chrs mac_dict n_variants_list n_genes_chr_list rest t1 of
                    Raises e \<Rightarrow> Raises e
                  | OutOfDraws \<Rightarrow> OutOfDraws
                  | Returns (chr_gene_numeric_idxs, t2) \<Rightarrow>
                      Returns ((chr, gene_numeric_idxs) # chr_gene_numeric_idxs, t2))))"

definition creating_mask_null ::
  "(nat \<times> int list) list \<Rightarrow> int list \<Rightarrow> draws \<Rightarrow> (masks \<times> draws) outcome" where
  "creating_mask_null mac_dict n_genes_chr_list t =
     (let n_variants_list = map (\<lambda>(_, mac). length mac) mac_dict;
          chr_list = map fst mac_dict in
      null_chrs mac_dict n_variants_list n_genes_chr_list (enumerate 0 chr_list) t)"

section \<open>Mask Builder, causal mode\<close>

text \<open>\<^verbatim>\<open>np.setdiff1d(ar1, ar2)\<close>: the sorted, unique values of \<open>ar1\<close> that are not in \<open>ar2\<close>.\<close>

definition setdiff1d :: "nat list \<Rightarrow> nat list \<Rightarrow> nat list" where
  "setdiff1d ar1 ar2 = filter (\<lambda>x. x \<notin> set ar2) (sort (remdups ar1))"

text \<open>
  Lines 303-305: the dictionary of MAC value to positions, filled from
  \<^verbatim>\<open>enumerate(mac)\<close>, that is from every position of the chromosome's MAC vector.
\<close>

definition build_mac_positions :: "int list \<Rightarrow> posmap" where
  "build_mac_positions mac = foldl (\<lambda>d (mac_i, x). dict_append d x mac_i) [] (enumerate 0 mac)"

text \<open>
  Lines 308-310: the dictionary restricted to the causal positions. \<^verbatim>\<open>mac[idx]\<close> raises
  \<^verbatim>\<open>IndexError\<close> for a position beyond the vector.
\<close>

fun build_causal_mac_positions :: "int list \<Rightarrow> nat list \<Rightarrow> posmap \<Rightarrow> py_error + posmap" where
  "build_causal_mac_positions mac [] d = Inr d"
| "build_causal_mac_positions mac (idx # causal_idxs) d =
     (if idx < length mac
      then build_causal_mac_positions mac causal_idxs (dict_append d (mac ! idx) idx)
      else Inl IndexError)"

text \<open>
  The loop of lines 321-331: up to ten sets for one causal draw. Each set is the
  non-causal draw followed by the causal draw; it is stored without a test.
\<close>

function causal_inner ::
  "posmap \<Rightarrow> cmac_bin \<Rightarrow> int \<Rightarrow> int \<Rightarrow> nat list \<Rightarrow> nat \<Rightarrow> draws \<Rightarrow> nat list list
     \<Rightarrow> (nat list list \<times> draws) outcome" where
  "causal_inner mac_positions bin n_genes causal_variants_cmac causal_variants n_added t output =
     (if n_added < 10 then
        (case np_randint (max (fst bin - causal_variants_cmac) 1)
                (snd bin - causal_variants_cmac + 1) t of
           Raises e \<Rightarrow> Raises e
         | OutOfDraws \<Rightarrow> OutOfDraws
         | Returns (non_causal_variants_cmac, t1) \<Rightarrow>
             (case select_variants_for_cmac mac_positions non_causal_variants_cmac t1 of
                Raises e \<Rightarrow> Raises e
              | OutOfDraws \<Rightarrow> OutOfDraws
              | Returns (non_causal_variants, t2) \<Rightarrow>
                  (let selected_variants = non_causal_variants @ causal_variants in
                   if n_genes \<le> int (length (output @ [selected_variants]))
                   then Returns (output @ [selected_variants], t2)
                   else causal_inner mac_positions bin n_genes causal_variants_cmac
                          causal_variants (n_added + 1) t2 (output @ [selected_variants]))))
      else Returns (output, t))"
  by pat_completeness auto

termination
  by (relation "measure (\<lambda>(mp, bin, n_genes, c, cv, n_added, t, output). 10 - n_added)") auto

declare causal_inner.simps [simp del]

text \<open>The Variant Selector and the inner loop never return more draws than they got.\<close>

lemma select_combo_draws:
  "select_combo macs cmac cur combo t = Returns (combo', t') \<Longrightarrow> length t' \<le> length t"
proof (induction macs cmac cur combo t rule: select_combo.induct)
  case (1 macs cmac cur combo t)
  note unfold = select_combo.simps[of macs cmac cur combo t]
  show ?case
  proof (cases "cur < cmac")
    case False
    with "1.prems" unfold show ?thesis by simp
  next
    case True
    from True "1.prems"(1) unfold obtain m0 t1 where ch: "np_choice macs t = Returns (m0, t1)"
      by (cases "np_choice macs t") auto
    from np_choice_shorter[OF ch] have lt: "length t1 < length t" .
    show ?thesis
    proof (cases "cur + m0 \<le> cmac")
      case le: True
      from "1.prems"(1) True ch le unfold
      have "select_combo (filter (\<lambda>m. m \<le> cmac - (cur + m0)) macs) cmac
              (cur + m0) (combo @ [m0]) t1 = Returns (combo', t')"
        by simp
      from "1.IH"(1)[OF True ch refl le this] lt show ?thesis by simp
    next
      case gt: False
      from "1.prems"(1) True ch gt unfold
      have "select_combo macs cmac cur combo t1 = Returns (combo', t')" by simp
      from "1.IH"(2)[OF True ch refl gt this] lt show ?thesis by simp
    qed
  qed
qed

lemma uniform_index_shorter:
  "uniform_index n t = Returns (i, t') \<Longrightarrow> length t' < length t"
  by (cases t) auto

lemma pick_variants_draws:
  "pick_variants d combo t = Returns (vs, t') \<Longrightarrow> length t' \<le> length t"
proof (induction combo arbitrary: t vs)
  case Nil
  then show ?case by simp
next
  case (Cons m combo)
  from Cons.prems(1) obtain i t1 where
    u: "uniform_index (length (dict_get d m)) t = Returns (i, t1)"
    by (cases "uniform_index (length (dict_get d m)) t") (auto simp: Let_def)
  from Cons.prems(1) u obtain v t2 where
    c: "np_choice (take (min (i + 20) (length (dict_get d m)) - i) (drop i (dict_get d m))) t1
          = Returns (v, t2)"
    by (cases "np_choice (take (min (i + 20) (length (dict_get d m)) - i)
                 (drop i (dict_get d m))) t1") (auto simp: Let_def)
  from Cons.prems(1) u c obtain vs0 where
    r: "pick_variants d combo t2 = Returns (vs0, t')"
    by (cases "pick_variants d combo t2") (auto simp: Let_def)
  from uniform_index_shorter[OF u] np_choice_shorter[OF c] Cons.IH[OF r]
  show ?case by simp
qed

lemma select_variants_for_cmac_draws:
  assumes "select_variants_for_cmac d cmac t = Returns (vs, t')"
  shows "length t' \<le> length t"
proof -
  from assms obtain combo t1 where
    c: "select_combo (filter (\<lambda>m. m \<le> cmac) (dict_keys d)) cmac 0 [] t = Returns (combo, t1)"
    and p: "pick_variants d combo t1 = Returns (vs, t')"
    unfolding select_variants_for_cmac_def Let_def
    by (cases "select_combo (filter (\<lambda>m. m \<le> cmac) (dict_keys d)) cmac 0 [] t") auto
  from select_combo_draws[OF c] pick_variants_draws[OF p] show ?thesis by simp
qed

lemma causal_inner_draws:
  "causal_inner mp bin n_genes c cv n_added t out = Returns (out', t') \<Longrightarrow>
   length t' \<le> length t"
proof (induction mp bin n_genes c cv n_added t out rule: causal_inner.induct)
  case (1 mp bin n_genes c cv n_added t out)
  note unfold = causal_inner.simps[of mp bin n_genes c cv n_added t out]
  show ?case
  proof (cases "n_added < 10")
    case False
    with "1.prems" unfold show ?thesis by simp
  next
    case True
    let ?lo = "max (fst bin - c) 1" and ?hi = "snd bin - c + 1"
    from True "1.prems" unfold obtain nc t1 where
      r: "np_randint ?lo ?hi t = Returns (nc, t1)"
      by (cases "np_randint ?lo ?hi t") auto
    from True "1.prems" unfold r obtain ncv t2 where
      s: "select_variants_for_cmac mp nc t1 = Returns (ncv, t2)"
      by (cases "select_variants_for_cmac mp nc t1") auto
    from np_randint_shorter[OF r] select_variants_for_cmac_draws[OF s]
    have le: "length t2 \<le> length t" by simp
    show ?thesis
    proof (cases "n_genes \<le> int (length (out @ [ncv @ cv]))")
      case fin: True
      with True "1.prems" unfold r s have "t' = t2" by (simp add: Let_def)
      with le show ?thesis by simp
    next
      case more: False
      with True "1.prems" unfold r s
      have "causal_inner mp bin n_genes c cv (n_added + 1) t2 (out @ [ncv @ cv])
              = Returns (out', t')"
        by (simp add: Let_def)
      from "1.IH"[OF True r refl s refl refl more this] le show ?thesis by simp
    qed
  qed
qed

text \<open>
  The \<^verbatim>\<open>while True\<close> loop of lines 315-333 for one bin. The source computes
  \<^verbatim>\<open>upper_bound = max(int(((bin[0] + bin[1]) // 2 * 0.5)), 2)\<close>; halving in floating
  point and truncating is \<open>div 2\<close> on the non-negative bin bounds.
\<close>

function causal_bin_loop ::
  "posmap \<Rightarrow> posmap \<Rightarrow> cmac_bin \<Rightarrow> int \<Rightarrow> draws \<Rightarrow> nat list list
     \<Rightarrow> (nat list list \<times> draws) outcome" where
  "causal_bin_loop mac_positions causal_mac_positions bin n_genes t output =
     (let upper_bound = max ((fst bin + snd bin) div 2 div 2) 2 in
      case np_randint 1 upper_bound t of
        Raises e \<Rightarrow> Raises e
      | OutOfDraws \<Rightarrow> OutOfDraws
      | Returns (causal_variants_cmac, t1) \<Rightarrow>
          (case select_variants_for_cmac causal_mac_positions causal_variants_cmac t1 of
             Raises e \<Rightarrow> Raises e
           | OutOfDraws \<Rightarrow> OutOfDraws
           | Returns (causal_variants, t2) \<Rightarrow>
               (case causal_inner mac_positions bin n_genes causal_variants_cmac
                       causal_variants 0 t2 output of
                  Raises e \<Rightarrow> Raises e
                | OutOfDraws \<Rightarrow> OutOfDraws
                | Returns (output', t3) \<Rightarrow>
                    if n_genes \<le> int (length output') then Returns (output', t3)
                    else causal_bin_loop mac_positions causal_mac_positions bin n_genes
                           t3 output')))"
  by pat_completeness auto

termination
proof (relation "measure (\<lambda>(mp, cmp, bin, n_genes, t, output). length t)")
  show "wf (measure (\<lambda>(mp, cmp, bin, n_genes, t, output). length t))" by simp
next
  fix mac_positions causal_mac_positions :: posmap and bin :: cmac_bin and n_genes :: int
    and t :: draws and out :: "nat list list" and upper_bound x2 c t1 x2a cv t2 x2b out' t3
  assume "np_randint 1 upper_bound t = Returns x2" "(c, t1) = x2"
    "select_variants_for_cmac causal_mac_positions c t1 = Returns x2a" "(cv, t2) = x2a"
    "causal_inner mac_positions bin n_genes c cv 0 t2 out = Returns x2b" "(out', t3) = x2b"
  then have "length t1 < length t" "length t2 \<le> length t1" "length t3 \<le> length t2"
    using np_randint_shorter[of 1 upper_bound t c t1]
      select_variants_for_cmac_draws[of causal_mac_positions c t1 cv t2]
      causal_inner_draws[of mac_positions bin n_genes c cv 0 t2 out out' t3]
    by auto
  then show "((mac_positions, causal_mac_positions, bin, n_genes, t3, out'),
              (mac_positions, causal_mac_positions, bin, n_genes, t, out))
             \<in> measure (\<lambda>(mp, cmp, bin, n_genes, t, output). length t)"
    by simp
qed

declare causal_bin_loop.simps [simp del]

text \<open>The loop over the bins of one chromosome (lines 313-334).\<close>

fun causal_bins ::
  "posmap \<Rightarrow> posmap \<Rightarrow> int \<Rightarrow> cmac_bin list \<Rightarrow> draws
     \<Rightarrow> ((cmac_bin \<times> nat list list) list \<times> draws) outcome" where
  "causal_bins mac_positions causal_mac_positions n_genes [] t = Returns ([], t)"
| "causal_bins mac_positions causal_mac_positions n_genes (bin # bins) t =
     (case causal_bin_loop mac_positions causal_mac_positions bin n_genes t [] of
        Raises e \<Rightarrow> Raises e
      | OutOfDraws \<Rightarrow> OutOfDraws
      | Returns (output, t1) \<Rightarrow>
          (case causal_bins mac_positions causal_mac_positions n_genes bins t1 of
             Raises e \<Rightarrow> Raises e
           | OutOfDraws \<Rightarrow> OutOfDraws
           | Returns (gene_numeric_idxs, t2) \<Rightarrow> Returns ((bin, output) # gene_numeric_idxs, t2)))"

text \<open>
  The loop over the chromosomes (lines 292-335). \<open>variant_idxs\<close>, the positions without
  the causal ones, and its length are computed as in lines 299-300; nothing after these
  lines reads them. As in null mode the quotas \<open>n_genes_chr_list\<close> are an input.
\<close>

fun causal_chrs ::
  "(nat \<times> int list) list \<Rightarrow> (nat \<times> nat list) list \<Rightarrow> nat list \<Rightarrow> int list
     \<Rightarrow> (nat \<times> nat) list \<Rightarrow> draws \<Rightarrow> (masks \<times> draws) outcome" where
  "causal_chrs mac_dict causal_idx_dict n_variants_list n_genes_chr_list [] t = Returns ([], t)"
| "causal_chrs mac_dict causal_idx_dict n_variants_list n_genes_chr_list ((i, chr) # rest) t =
     (case map_of mac_dict chr of
        None \<Rightarrow> Raises KeyError
      | Some mac \<Rightarrow>
          if length n_variants_list \<le> i \<or> length n_genes_chr_list \<le> i then Raises IndexError
          else
            (case map_of causal_idx_dict chr of
               None \<Rightarrow> Raises KeyError
             | Some causal_idxs \<Rightarrow>
                 (let n_variants = n_variants_list ! i;
                      n_genes = n_genes_chr_list ! i;
                      variant_idxs = setdiff1d [0..<n_variants] causal_idxs;
                      n_variants = length variant_idxs;
                      mac_positions = build_mac_positions mac in
                  case build_causal_mac_positions mac causal_idxs [] of
                    Inl e \<Rightarrow> Raises e
                  | Inr causal_mac_positions \<Rightarrow>
                      (case causal_bins mac_positions causal_mac_positions n_genes cmac_bins t of
                         Raises e \<Rightarrow> Raises e
                       | OutOfDraws \<Rightarrow> OutOfDraws
                       | Returns (gene_numeric_idxs, t1) \<Rightarrow>
                           (case causal_chrs mac_dict causal_idx_dict n_variants_list
                                   n_genes_chr_list rest t1 of
                              Raises e \<Rightarrow> Raises e
                            | OutOfDraws \<Rightarrow> OutOfDraws
                            | Returns (chr_gene_numeric_idxs, t2) \<Rightarrow>
                                Returns ((chr, gene_numeric_idxs) # chr_gene_numeric_idxs, t2))))))"

definition creating_mask_causal ::
  "(nat \<times> int list) list \<Rightarrow> (nat \<times> nat list) list \<Rightarrow> int list \<Rightarrow> draws
     \<Rightarrow> (masks \<times> draws) outcome" where
  "creating_mask_causal mac_dict causal_idx_dict n_genes_chr_list t =
     (let n_variants_list = map (\<lambda>(_, mac). length mac) mac_dict;
          chr_list = map fst mac_dict in
      causal_chrs mac_dict causal_idx_dict n_variants_list n_genes_chr_list
        (enumerate 0 chr_list) t)"

section \<open>Matrices\<close>

text \<open>
  A two-dimensional array (NumPy array or SciPy sparse matrix) with its shape: \<open>entry m i j\<close>
  is \<^verbatim>\<open>m[i, j]\<close> for \<open>i < nrows m\<close> and \<open>j < ncols m\<close>. Sparse storage is a matter of
  layout and is not modelled.
\<close>

record 'a matrix =
  nrows :: nat
  ncols :: nat
  entry :: "nat \<Rightarrow> nat \<Rightarrow> 'a"

text \<open>\<^verbatim>\<open>m.T\<close>\<close>

definition mat_transpose :: "'a matrix \<Rightarrow> 'a matrix" where
  "mat_transpose m = \<lparr>nrows = ncols m, ncols = nrows m, entry = (\<lambda>i j. entry m j i)\<rparr>"

text \<open>\<^verbatim>\<open>a @ b\<close> for shapes that agree; the sum and the products are those of the entry type.\<close>

definition mat_mul :: "'a::semiring_0 matrix \<Rightarrow> 'a matrix \<Rightarrow> 'a matrix" where
  "mat_mul a b =
     \<lparr>nrows = nrows a, ncols = ncols b,
      entry = (\<lambda>i j. sum_list (map (\<lambda>k. entry a i k * entry b k j) [0..<ncols a]))\<rparr>"

text \<open>\<^verbatim>\<open>m.astype(t)\<close>: the cast \<open>f\<close> applied to every entry.\<close>

definition mat_astype :: "('a \<Rightarrow> 'b) \<Rightarrow> 'a matrix \<Rightarrow> 'b matrix" where
  "mat_astype f m = \<lparr>nrows = nrows m, ncols = ncols m, entry = (\<lambda>i j. f (entry m i j))\<rparr>"





text \<open>A loop that builds a list and stops at the first exception.\<close>

fun map_result :: "('a \<Rightarrow> py_error + 'b) \<Rightarrow> 'a list \<Rightarrow> py_error + 'b list" where
  "map_result f [] = Inr []"
| "map_result f (x # xs) =
     (case f x of
        Inl e \<Rightarrow> Inl e
      | Inr y \<Rightarrow> (case map_result f xs of Inl e \<Rightarrow> Inl e | Inr ys \<Rightarrow> Inr (y # ys)))"

section \<open>Covariance/Projection Engine\<close>

text \<open>
  \<^verbatim>\<open>_get_ld_matrix\<close> (lines 88-94). A genotype matrix has one row per variant and one
  column per subject; its entries are allele counts. The cast to \<^verbatim>\<open>np.uint16\<close> makes
  the entries 16-bit words, and the product \<^verbatim>\<open>vset @ vset.T\<close> is computed in that type.
\<close>

type_synonym genotype = "nat matrix"

definition get_ld_matrix :: "(nat \<times> genotype) list \<Rightarrow> (nat \<times> 16 word matrix) list" where
  "get_ld_matrix sparse_genotype_dict =
     map (\<lambda>(chr, vset).
            (let vset = mat_astype (of_nat :: nat \<Rightarrow> 16 word) vset;
                 vset_ld = mat_mul vset (mat_transpose vset)
             in (chr, vset_ld)))
         sparse_genotype_dict"




section \<open>Test Runner and Aggregator\<close>

text \<open>
  A p-value as the variant-set test returns it is a float: a number, an infinity or
  NaN. The test itself (\<^verbatim>\<open>VariantSetTest.input_vset\<close> and \<^verbatim>\<open>do_inference_tests\<close>, fed with the
  statistics of one variant set) is not part of this program: it is the parameter
  \<open>vset_test\<close>, which gives for a chromosome and the variant indices of a set the first
  column of the table of p-values, one per trait dimension.
\<close>

datatype pvalue = Finite real | PosInf | NegInf | NaN

text \<open>
  \<^verbatim>\<open>p < sig_thresh\<close> for a float \<open>p\<close> and a finite threshold: a comparison with NaN is
  false, \<^verbatim>\<open>-inf\<close> is below every number and \<^verbatim>\<open>inf\<close> below none.
\<close>

definition float_less :: "pvalue \<Rightarrow> real \<Rightarrow> bool" where
  "float_less p sig_thresh =
     (case p of Finite v \<Rightarrow> v < sig_thresh | PosInf \<Rightarrow> False | NegInf \<Rightarrow> True | NaN \<Rightarrow> False)"

text \<open>\<^verbatim>\<open>pvalues < sig_thresh\<close>: the comparison, elementwise.\<close>

definition below_thresh :: "real \<Rightarrow> pvalue list \<Rightarrow> bool list" where
  "below_thresh sig_thresh pvalues = map (\<lambda>p. float_less p sig_thresh) pvalues"

text \<open>\<^verbatim>\<open>np.nansum\<close> of an array of booleans: the number of true entries.\<close>

definition np_nansum :: "bool list \<Rightarrow> nat" where
  "np_nansum bs = length (filter (\<lambda>b. b) bs)"

text \<open>\<^verbatim>\<open>_variant_set_test_\<close> (lines 182-192), the test of a single variant set.\<close>

definition variant_set_test_single ::
  "real \<Rightarrow> (nat \<Rightarrow> nat list \<Rightarrow> pvalue list) \<Rightarrow> nat \<Rightarrow> nat list \<Rightarrow> nat" where
  "variant_set_test_single sig_thresh vset_test chr numeric_idx =
     (let pvalues = vset_test chr numeric_idx;
          sig_count = np_nansum (below_thresh sig_thresh pvalues)
      in sig_count)"

text \<open>\<^verbatim>\<open>_variant_set_test\<close> (lines 157-180): the count of every set, per chromosome and bin.\<close>

definition variant_set_test ::
  "real \<Rightarrow> (nat \<Rightarrow> nat list \<Rightarrow> pvalue list) \<Rightarrow> masks
     \<Rightarrow> (nat \<times> (cmac_bin \<times> nat list) list) list" where
  "variant_set_test sig_thresh vset_test chr_gene_numeric_idxs =
     map (\<lambda>(chr, gene_numeric_idxs).
            (chr, map (\<lambda>(bin, gene_numeric_idx).
                         (bin, map (variant_set_test_single sig_thresh vset_test chr) gene_numeric_idx))
                      gene_numeric_idxs))
         chr_gene_numeric_idxs"

definition all_bins :: "cmac_bin list" where
  "all_bins = [(2, 2), (3, 3), (4, 4), (5, 5), (6, 7), (8, 9), (10, 11), (12, 14), (15, 20),
               (21, 30), (31, 60), (61, 100), (101, 500), (501, 1000)]"

text \<open>
  \<^verbatim>\<open>bin_sig_count_dict[cmac_bin].extend(sig_count_list)\<close> on a dictionary in insertion
  order; \<^verbatim>\<open>KeyError\<close> for a bin that is not a key.
\<close>

fun dict_extend ::
  "(cmac_bin \<times> nat list) list \<Rightarrow> cmac_bin \<Rightarrow> nat list \<Rightarrow> py_error + (cmac_bin \<times> nat list) list" where
  "dict_extend [] k xs = Inl KeyError"
| "dict_extend ((k', ys) # d) k xs =
     (if k' = k then Inr ((k', ys @ xs) # d)
      else (case dict_extend d k xs of
              Inl e \<Rightarrow> Inl e
            | Inr d' \<Rightarrow> Inr ((k', ys) # d')))"

text \<open>The two loops of lines 202-204.\<close>

fun extend_bins ::
  "(cmac_bin \<times> nat list) list \<Rightarrow> (cmac_bin \<times> nat list) list
     \<Rightarrow> py_error + (cmac_bin \<times> nat list) list" where
  "extend_bins bin_sig_count_dict [] = Inr bin_sig_count_dict"
| "extend_bins bin_sig_count_dict ((cmac_bin, sig_count_list) # rest) =
     (case dict_extend bin_sig_count_dict cmac_bin sig_count_list of
        Inl e \<Rightarrow> Inl e
      | Inr d \<Rightarrow> extend_bins d rest)"

fun extend_chrs ::
  "(cmac_bin \<times> nat list) list \<Rightarrow> (nat \<times> (cmac_bin \<times> nat list) list) list
     \<Rightarrow> py_error + (cmac_bin \<times> nat list) list" where
  "extend_chrs bin_sig_count_dict [] = Inr bin_sig_count_dict"
| "extend_chrs bin_sig_count_dict ((chr, sig_count_dict) # rest) =
     (case extend_bins bin_sig_count_dict sig_count_dict of
        Inl e \<Rightarrow> Inl e
      | Inr d \<Rightarrow> extend_chrs d rest)"

text \<open>
  \<^verbatim>\<open>str(x)\<close> of a Python integer, and \<^verbatim>\<open>sep.join(xs)\<close>.
\<close>

function str_nat :: "nat \<Rightarrow> string" where
  "str_nat n =
     (if n < 10 then [''0123456789'' ! n]
      else str_nat (n div 10) @ [''0123456789'' ! (n mod 10)])"
  by pat_completeness auto

termination
  by (relation "measure (\<lambda>n. n)") auto

declare str_nat.simps [simp del]

definition str_int :: "int \<Rightarrow> string" where
  "str_int x = (if x < 0 then CHR ''-'' # str_nat (nat (- x)) else str_nat (nat x))"

fun py_join :: "string \<Rightarrow> string list \<Rightarrow> string" where
  "py_join sep [] = []"
| "py_join sep [x] = x"
| "py_join sep (x # y # ys) = x @ sep @ py_join sep (y # ys)"

definition bin_label :: "cmac_bin \<Rightarrow> string" where
  "bin_label cmac_bin = py_join ''_'' (map str_int [fst cmac_bin, snd cmac_bin])"

text \<open>
  \<^verbatim>\<open>np.mean(sig_count_list) / self.n_voxels\<close>. The result is a float; the model has
  a real number for a finite result and \<open>None\<close> for a result that is not finite: the
  mean of an empty list is NaN, and a division by zero gives NaN or an infinity.
  Rounding is not modelled.
\<close>

definition np_mean :: "nat list \<Rightarrow> real option" where
  "np_mean xs = (if xs = [] then None else Some (real (sum_list xs) / real (length xs)))"

definition float_div :: "real option \<Rightarrow> nat \<Rightarrow> real option" where
  "float_div x n = (case x of None \<Rightarrow> None | Some v \<Rightarrow> if n = 0 then None else Some (v / real n))"

text \<open>
  \<^verbatim>\<open>RVsimulation.run\<close> (lines 195-211). The data frame has one row, indexed by
  \<open>sample_id\<close>, and one column per label.
\<close>

definition run ::
  "real \<Rightarrow> nat \<Rightarrow> (nat \<Rightarrow> nat list \<Rightarrow> pvalue list) \<Rightarrow> masks \<Rightarrow> nat
     \<Rightarrow> py_error + (nat \<times> (string \<times> real option) list)" where
  "run sig_thresh n_voxels vset_test chr_gene_numeric_idxs sample_id =
     (let chr_sig_count_dict = variant_set_test sig_thresh vset_test chr_gene_numeric_idxs;
          bin_sig_count_dict = map (\<lambda>cmac_bin. (cmac_bin, [])) all_bins
      in case extend_chrs bin_sig_count_dict chr_sig_count_dict of
           Inl e \<Rightarrow> Inl e
         | Inr bin_sig_count_dict \<Rightarrow>
             Inr (sample_id,
                  map (\<lambda>(cmac_bin, sig_count_list).
                         (bin_label cmac_bin, float_div (np_mean sig_count_list) n_voxels))
                      bin_sig_count_dict))"

section \<open>Command-line arguments and the chromosomes of a run\<close>

text \<open>
  The namespace of parsed arguments (lines 486-493): an option that is not given is
  \<^verbatim>\<open>None\<close>.
\<close>

record args =
  null_model :: "string option"
  sparse_genotype :: "string option"
  loco_preds :: "string option"
  out :: "string option"
  n_ldrs :: "int option"
  causal_idx :: "string option"
  perm :: "string option"

text \<open>\<^verbatim>\<open>list(range(start, stop, step))\<close> for a positive step.\<close>

definition py_range :: "nat \<Rightarrow> nat \<Rightarrow> nat \<Rightarrow> nat list" where
  "py_range start stop step =
     map (\<lambda>k. start + k * step) [0..<(stop - start + step - 1) div step]"

text \<open>
  \<^verbatim>\<open>check_input\<close> (lines 367-379). A missing required option raises \<^verbatim>\<open>ValueError\<close>
  with a message, here the left summand.
\<close>

definition check_input :: "args \<Rightarrow> string + nat list" where
  "check_input a =
     (if sparse_genotype a = None then Inl ''--sparse-genotype is required''
      else if null_model a = None then Inl ''--null-model is required''
      else if perm a = None then Inl ''--perm is required''
      else if causal_idx a \<noteq> None then Inr (py_range 1 23 2)
      else Inr (py_range 2 23 2))"

section \<open>Notions used in the properties\<close>

text \<open>
  A variant set lies in a bin when its cumulative MAC is in the closed interval of the bin.
\<close>

definition in_bin :: "int list \<Rightarrow> cmac_bin \<Rightarrow> nat list \<Rightarrow> bool" where
  "in_bin mac bin selected_variants =
     (fst bin \<le> cmac_of mac selected_variants \<and> cmac_of mac selected_variants \<le> snd bin)"

text \<open>
  The positions that a dictionary lists, under any key.
\<close>

definition dict_positions :: "posmap \<Rightarrow> nat set" where
  "dict_positions d = \<Union> (set (map (set \<circ> snd) d))"

text \<open>
  A stored set of causal mode: some non-causal draw followed by a non-empty causal draw
  whose members are causal positions, with the cMAC of the whole in the bin.
\<close>

definition causal_set :: "int list \<Rightarrow> nat set \<Rightarrow> cmac_bin \<Rightarrow> nat list \<Rightarrow> bool" where
  "causal_set mac causal bin selected_variants =
     ((\<exists>non_causal_variants causal_variants.
         selected_variants = non_causal_variants @ causal_variants
         \<and> causal_variants \<noteq> [] \<and> set causal_variants \<subseteq> causal)
      \<and> fst bin \<le> cmac_of mac selected_variants \<and> cmac_of mac selected_variants \<le> snd bin)"

text \<open>
  The true co-occurrence count of the variants \<open>a\<close> and \<open>b\<close>: the sum over the subjects
  of the product of their allele counts, in the natural numbers.
\<close>

definition cooccurrence :: "genotype \<Rightarrow> nat \<Rightarrow> nat \<Rightarrow> nat" where
  "cooccurrence vset a b = sum_list (map (\<lambda>s. entry vset a s * entry vset b s) [0..<ncols vset])"





text \<open>
  The count of a variant set as the specification words it: the number of trait
  dimensions whose p-value is a number below the threshold, no p-value that is not
  finite being counted. Beside it, the number of trait dimensions whose p-value is
  \<^verbatim>\<open>-inf\<close>.
\<close>

definition spec_sig_count :: "real \<Rightarrow> pvalue list \<Rightarrow> nat" where
  "spec_sig_count sig_thresh pvalues =
     card {d. d < length pvalues \<and> (\<exists>v. pvalues ! d = Finite v \<and> v < sig_thresh)}"

definition neg_inf_count :: "pvalue list \<Rightarrow> nat" where
  "neg_inf_count pvalues = card {d. d < length pvalues \<and> pvalues ! d = NegInf}"

text \<open>
  The counts of all variant sets of one bin, concatenated across the chromosomes in
  their order; the count of a set is the number of its p-values that are numbers below
  the threshold or \<^verbatim>\<open>-inf\<close>.
\<close>

definition bin_sig_counts ::
  "real \<Rightarrow> (nat \<Rightarrow> nat list \<Rightarrow> pvalue list) \<Rightarrow> masks \<Rightarrow> cmac_bin \<Rightarrow> nat list" where
  "bin_sig_counts sig_thresh vset_test chr_gene_numeric_idxs cmac_bin =
     concat (map (\<lambda>(chr, gene_numeric_idxs).
                    concat (map (\<lambda>(bin, gene_numeric_idx).
                                   if bin = cmac_bin
                                   then map (\<lambda>numeric_idx.
                                               spec_sig_count sig_thresh
                                                 (vset_test chr numeric_idx)
                                               + neg_inf_count (vset_test chr numeric_idx))
                                          gene_numeric_idx
                                   else [])
                                gene_numeric_idxs))
                 chr_gene_numeric_idxs)"

text \<open>
  The rate of a bin from its counts: their mean divided by the number of trait
  dimensions, and NaN (\<open>None\<close>) for a bin without counts.
\<close>

definition bin_rate :: "nat list \<Rightarrow> nat \<Rightarrow> real option" where
  "bin_rate counts n_voxels =
     (if counts = [] then None
      else Some (real (sum_list counts) / real (length counts) / real n_voxels))"

text \<open>
  The counts that a list of (bin, counts) items holds for one bin, in order, and the
  same across the chromosomes.
\<close>

definition picked :: "cmac_bin \<Rightarrow> (cmac_bin \<times> nat list) list \<Rightarrow> nat list" where
  "picked b items = concat (map (\<lambda>(b', xs). if b' = b then xs else []) items)"

definition picked_chrs ::
  "cmac_bin \<Rightarrow> (nat \<times> (cmac_bin \<times> nat list) list) list \<Rightarrow> nat list" where
  "picked_chrs b chrs = concat (map (\<lambda>(chr, items). picked b items) chrs)"

section \<open>Example inputs\<close>

text \<open>
  A genotype matrix of two variants and three subjects, rows \<open>[0, 1, 2]\<close> and
  \<open>[1, 1, 0]\<close>.
\<close>

definition example_genotype :: genotype where
  "example_genotype =
     \<lparr>nrows = 2, ncols = 3, entry = (\<lambda>i j. [[0, 1, 2], [1, 1, 0]] ! i ! j)\<rparr>"

text \<open>
  One variant and 262144 subjects, of whom the first 65536 carry one copy of the minor
  allele: a minor allele frequency of one eighth.
\<close>

definition common_genotype :: genotype where
  "common_genotype =
     \<lparr>nrows = 1, ncols = 262144, entry = (\<lambda>i j. if j < 65536 then 1 else 0)\<rparr>"





text \<open>
  Two chromosomes, two trait dimensions, threshold \<open>2.5e-6\<close>. The test of chromosome 2
  returns one significant p-value and one NaN, the test of chromosome 4 one p-value
  above the threshold and one \<^verbatim>\<open>-inf\<close>.
\<close>

definition example_masks :: masks where
  "example_masks = [(2, [((2, 2), [[0, 1], [1, 2]])]), (4, [((2, 2), [[3]]), ((3, 3), [[0]])])]"

definition example_vset_test :: "nat \<Rightarrow> nat list \<Rightarrow> pvalue list" where
  "example_vset_test chr numeric_idx =
     (if chr = 2 then [Finite (1 / 1000000), NaN] else [Finite (1 / 2), NegInf])"

text \<open>A test with one trait dimension whose p-value is always \<^verbatim>\<open>-inf\<close>.\<close>

definition neg_inf_vset_test :: "nat \<Rightarrow> nat list \<Rightarrow> pvalue list" where
  "neg_inf_vset_test chr numeric_idx = [NegInf]"

text \<open>
  The arguments of a power run and of a null run.
\<close>

definition power_args :: args where
  "power_args = \<lparr>null_model = Some ''null.h5'', sparse_genotype = Some ''chr@.npz'',
     loco_preds = None, out = Some ''heig'', n_ldrs = None, causal_idx = Some ''causal@.txt'',
     perm = Some ''perm.h5''\<rparr>"

definition null_args :: args where
  "null_args = power_args\<lparr>causal_idx := None\<rparr>"

chapter \<open>Properties\<close>

section \<open>The Variant Selector returns exact sums\<close>

lemma select_combo_sum:
  "select_combo macs cmac cur combo t = Returns (combo', t') \<Longrightarrow>
   cur \<le> cmac \<Longrightarrow> sum_list combo = cur \<Longrightarrow> sum_list combo' = cmac"
proof (induction macs cmac cur combo t rule: select_combo.induct)
  case (1 macs cmac cur combo t)
  note unfold = select_combo.simps[of macs cmac cur combo t]
  show ?case
  proof (cases "cur < cmac")
    case False
    with "1.prems" unfold show ?thesis by simp
  next
    case True
    from True "1.prems"(1) unfold obtain m0 t1 where ch: "np_choice macs t = Returns (m0, t1)"
      by (cases "np_choice macs t") auto
    show ?thesis
    proof (cases "cur + m0 \<le> cmac")
      case le: True
      from "1.prems"(1) True ch le unfold
      have "select_combo (filter (\<lambda>m. m \<le> cmac - (cur + m0)) macs) cmac
              (cur + m0) (combo @ [m0]) t1 = Returns (combo', t')"
        by simp
      from "1.IH"(1)[OF True ch refl le this le] "1.prems"(3) show ?thesis by simp
    next
      case gt: False
      from "1.prems"(1) True ch gt unfold
      have "select_combo macs cmac cur combo t1 = Returns (combo', t')" by simp
      from "1.IH"(2)[OF True ch refl gt this "1.prems"(2) "1.prems"(3)] show ?thesis .
    qed
  qed
qed

lemma dict_get_entry:
  "p \<in> set (dict_get d m) \<Longrightarrow> \<exists>ps. (m, ps) \<in> set d \<and> p \<in> set ps"
proof (cases "map_of d m")
  case None
  assume "p \<in> set (dict_get d m)"
  with None show ?thesis by (simp add: dict_get_def)
next
  case (Some ps)
  assume "p \<in> set (dict_get d m)"
  with Some have "p \<in> set ps" by (simp add: dict_get_def)
  with map_of_SomeD[OF Some] show ?thesis by blast
qed

lemma consistent_dict_get:
  assumes "consistent mac d" and "p \<in> set (dict_get d m)"
  shows "p < length mac \<and> mac ! p = m"
proof -
  from dict_get_entry[OF assms(2)] obtain ps where e: "(m, ps) \<in> set d" and p: "p \<in> set ps"
    by blast
  from assms(1) e have "list_all (\<lambda>p. p < length mac \<and> mac ! p = m) ps"
    unfolding consistent_def list_all_iff by fastforce
  with p show ?thesis by (simp add: list_all_iff)
qed

lemma np_choice_mem:
  "np_choice xs t = Returns (x, t') \<Longrightarrow> x \<in> set xs"
proof (cases xs)
  case Nil
  then show "np_choice xs t = Returns (x, t') \<Longrightarrow> x \<in> set xs" by simp
next
  case (Cons y ys)
  assume r: "np_choice xs t = Returns (x, t')"
  then obtain r0 where t: "t = r0 # t'" and x: "x = xs ! (r0 mod length xs)"
    using Cons by (cases t) auto
  have "r0 mod length xs < length xs" using Cons by simp
  then show "x \<in> set xs" using x by simp
qed

lemma pick_variants_macs:
  "pick_variants d combo t = Returns (vs, t') \<Longrightarrow> consistent mac d \<Longrightarrow>
   map (\<lambda>v. mac ! v) vs = combo \<and> list_all (\<lambda>v. v < length mac) vs
   \<and> set vs \<subseteq> \<Union> (set (map (set \<circ> snd) d))"
proof (induction combo arbitrary: t vs)
  case Nil
  then show ?case by simp
next
  case (Cons m combo)
  from Cons.prems(1) obtain i t1 where
    u: "uniform_index (length (dict_get d m)) t = Returns (i, t1)"
    by (auto simp: Let_def split: outcome.splits)
  from Cons.prems(1) u obtain v t2 where
    c: "np_choice (take (min (i + 20) (length (dict_get d m)) - i) (drop i (dict_get d m))) t1 = Returns (v, t2)"
    by (auto simp: Let_def split: outcome.splits)
  from Cons.prems(1) u c obtain vs0 where
    r: "pick_variants d combo t2 = Returns (vs0, t')" and vs: "vs = v # vs0"
    by (auto simp: Let_def split: outcome.splits)
  from np_choice_mem[OF c] have "v \<in> set (dict_get d m)"
    by (meson in_set_dropD in_set_takeD)
  from consistent_dict_get[OF Cons.prems(2) this] dict_get_entry[OF this]
    Cons.IH[OF r Cons.prems(2)] vs
  show ?case by force
qed

lemma select_variants_for_cmac_sum:
  assumes "consistent mac mac_positions" and "0 \<le> cmac"
    and "select_variants_for_cmac mac_positions cmac t = Returns (selected_variants, t')"
  shows "cmac_of mac selected_variants = cmac"
proof -
  from assms(3) obtain combo t1 where
    c: "select_combo (filter (\<lambda>m. m \<le> cmac) (dict_keys mac_positions)) cmac 0 [] t
          = Returns (combo, t1)"
    and p: "pick_variants mac_positions combo t1 = Returns (selected_variants, t')"
    unfolding select_variants_for_cmac_def Let_def
    by (cases "select_combo (filter (\<lambda>m. m \<le> cmac) (dict_keys mac_positions)) cmac 0 [] t") auto
  from select_combo_sum[OF c assms(2)] have "sum_list combo = cmac" by simp
  moreover from pick_variants_macs[OF p assms(1)]
  have "map (\<lambda>v. mac ! v) selected_variants = combo" by simp
  ultimately show ?thesis by (simp add: cmac_of_def)
qed

text \<open>
  Claim C2. Whenever the Variant Selector returns for a dictionary that agrees with the
  MAC vector (MACs are counts, so non-negative) and a target that is at least the least
  MAC value of the pool, the MACs of the returned variant indices, counted with
  multiplicity, sum to the target exactly.
\<close>

theorem select_variants_for_cmac_exact:
  assumes "consistent mac mac_positions"
    and "dict_keys mac_positions \<noteq> []"
    and "list_all (\<lambda>m. 0 \<le> m) (dict_keys mac_positions)"
    and "Min (set (dict_keys mac_positions)) \<le> cmac"
    and "select_variants_for_cmac mac_positions cmac t = Returns (selected_variants, t')"
  shows "cmac_of mac selected_variants = cmac"
proof -
  from assms(2) have "Min (set (dict_keys mac_positions)) \<in> set (dict_keys mac_positions)"
    by (intro Min_in) auto
  with assms(3) have "0 \<le> Min (set (dict_keys mac_positions))"
    by (simp add: list_all_iff)
  with assms(4) have "0 \<le> cmac" by simp
  from select_variants_for_cmac_sum[OF assms(1) this assms(5)] show ?thesis .
qed

theorem select_variants_for_cmac_exact_witness:
  "consistent [1, 2, 1] [(1, [0, 2]), (2, [1])]
   \<and> select_variants_for_cmac [(1, [0, 2]), (2, [1])] 3 [1, 0, 1, 0, 0, 0] = Returns ([1, 0], [])
   \<and> cmac_of [1, 2, 1] [1, 0] = 3"
proof -
  have h1: "consistent [1, 2, 1] [(1, [0, 2]), (2, [1])]"
    by (simp add: consistent_def)
  have h2: "dict_keys [(1, [0, 2]), (2, [1::nat])] \<noteq> []"
    by (simp add: dict_keys_def)
  have h3: "list_all (\<lambda>m. 0 \<le> m) (dict_keys [(1, [0, 2]), (2, [1::nat])])"
    by (simp add: dict_keys_def)
  have h4: "Min (set (dict_keys [(1, [0, 2]), (2, [1::nat])])) \<le> 3"
    by (simp add: dict_keys_def)
  have h5: "select_variants_for_cmac [(1, [0, 2]), (2, [1])] 3 [1, 0, 1, 0, 0, 0]
              = Returns ([1, 0], [])"
    by code_simp
  have "cmac_of [1, 2, 1] [1, 0] = 3"
    by (rule select_variants_for_cmac_exact[OF h1 h2 h3 h4 h5])
  with h1 h5 show ?thesis by blast
qed

text \<open>
  Claim C7, as the code has it. When the eligible MAC values are exhausted while the
  running sum is still below the target, the next draw is \<^verbatim>\<open>np.random.choice\<close> on an
  empty array, which raises \<^verbatim>\<open>ValueError\<close>: the selection ends at once with an
  error and returns no combination. The selector itself has no guard for this state.
\<close>

theorem select_combo_empty_eligible_raises:
  "current_cmac < cmac \<Longrightarrow> select_combo [] cmac current_cmac combo t = Raises ValueError"
  by (simp add: select_combo.simps[of "[]"])

theorem select_combo_empty_eligible_raises_witness:
  "(2::int) < 3 \<and> select_combo [] 3 2 [2] [5, 7] = Raises ValueError"
proof -
  have h: "(2::int) < 3" by simp
  have "select_combo [] 3 2 [2] [5, 7] = Raises ValueError"
    by (rule select_combo_empty_eligible_raises[OF h])
  with h show ?thesis by blast
qed

text \<open>
  The claim as stated (the selection cannot terminate and does not fail with an error)
  fails: with the pool \<open>{2: [0]}\<close> and target 3 the selector accepts 2, is left with no
  eligible value for the remaining 1, and raises.
\<close>

theorem select_variants_for_cmac_fails_fast:
  "select_variants_for_cmac [(2, [0])] 3 [0] = Raises ValueError"
  by code_simp

lemma select_variants_for_cmac_no_eligible:
  assumes "0 < cmac" and "filter (\<lambda>m. m \<le> cmac) (dict_keys mac_positions) = []"
  shows "select_variants_for_cmac mac_positions cmac t = Raises ValueError"
  using assms by (simp add: select_variants_for_cmac_def select_combo.simps[of "[]"])

section \<open>Null mode: stored sets lie in their bin\<close>

text \<open>A permutation of a list without repetitions has the same members, each once.\<close>

lemma permute_distinct_set:
  "distinct xs \<Longrightarrow> distinct (permute r xs) \<and> set (permute r xs) = set xs"
proof (induction r xs rule: permute.induct)
  case (1 r xs)
  show ?case
  proof (cases "xs = []")
    case True
    then show ?thesis by (subst permute.simps, subst permute.simps) simp
  next
    case False
    define k where "k = r mod length xs"
    define rest where "rest = take k xs @ drop (Suc k) xs"
    from False have k: "k < length xs" by (simp add: k_def)
    then have split: "xs = take k xs @ xs ! k # drop (Suc k) xs"
      by (rule id_take_nth_drop)
    from "1.prems" have "distinct (take k xs @ xs ! k # drop (Suc k) xs)"
      using split by simp
    then have d: "distinct rest" and notin: "xs ! k \<notin> set rest"
      by (auto simp: rest_def)
    have "set xs = set (take k xs @ xs ! k # drop (Suc k) xs)"
      using split by simp
    then have s: "set xs = insert (xs ! k) (set rest)"
      by (simp add: rest_def)
    from "1.IH"[OF False k_def] d
    have ih: "distinct (permute (r div length xs) rest)
        \<and> set (permute (r div length xs) rest) = set rest"
      by (simp add: rest_def)
    have eq: "permute r xs = xs ! k # permute (r div length xs) rest"
      using False by (subst permute.simps) (simp add: Let_def k_def rest_def)
    from ih notin s show ?thesis by (simp add: eq)
  qed
qed

lemma np_permutation_distinct_set:
  "np_permutation n t = Returns (pm, t') \<Longrightarrow> distinct pm \<and> set pm = {..<n}"
proof (cases t)
  case Nil
  assume "np_permutation n t = Returns (pm, t')"
  with Nil show ?thesis by simp
next
  case (Cons r t0)
  assume "np_permutation n t = Returns (pm, t')"
  with Cons have "pm = permute r [0..<n]" by simp
  with permute_distinct_set[of "[0..<n]" r] show ?thesis
    by (simp add: atLeast0LessThan)
qed

text \<open>
  Non-negative MACs that add up to less than \<open>2^63\<close> over the whole chromosome: the
  64-bit sum over a set of distinct positions is the integer sum.
\<close>

lemma sum_list_word_of_int:
  "sum_list (map (\<lambda>v. (word_of_int (f v) :: 64 word)) xs) = word_of_int (sum_list (map f xs))"
  by (induction xs) simp_all

lemma sint_word_of_int_64:
  assumes "0 \<le> x" and "x < 2 ^ 63"
  shows "sint (word_of_int x :: 64 word) = x"
proof -
  have "sint (word_of_int x :: 64 word) = signed_take_bit 63 x"
    by (simp add: signed_of_int)
  also from assms have "\<dots> = x"
    by (simp add: signed_take_bit_int_eq_self)
  finally show ?thesis .
qed

lemma cmac_of_bounds:
  assumes "distinct sel" and "set sel \<subseteq> {..<length mac}" and "\<forall>m\<in>set mac. 0 \<le> m"
  shows "0 \<le> cmac_of mac sel \<and> cmac_of mac sel \<le> sum_list mac"
proof -
  have nonneg: "0 \<le> mac ! v" if "v < length mac" for v
    using assms(3) that by simp
  have a: "cmac_of mac sel = (\<Sum>v\<in>set sel. mac ! v)"
    using assms(1) by (simp add: cmac_of_def sum_list_distinct_conv_sum_set)
  have b: "(\<Sum>v\<in>set sel. mac ! v) \<le> (\<Sum>v\<in>{..<length mac}. mac ! v)"
    by (rule sum_mono2) (use assms(2) nonneg in auto)
  have c: "(\<Sum>v\<in>{..<length mac}. mac ! v) = sum_list mac"
    by (simp add: sum_list_sum_nth atLeast0LessThan)
  have d: "0 \<le> (\<Sum>v\<in>set sel. mac ! v)"
    by (rule sum_nonneg) (use assms(2) nonneg in auto)
  from a b c d show ?thesis by simp
qed

lemma np_sum_int64_exact:
  assumes "distinct sel" and "set sel \<subseteq> {..<length mac}" and "\<forall>m\<in>set mac. 0 \<le> m"
    and "sum_list mac < 2 ^ 63"
  shows "np_sum_int64 mac sel = cmac_of mac sel"
proof -
  from cmac_of_bounds[OF assms(1-3)] assms(4)
  have "0 \<le> cmac_of mac sel" and "cmac_of mac sel < 2 ^ 63" by simp_all
  then have "sint (word_of_int (cmac_of mac sel) :: 64 word) = cmac_of mac sel"
    by (rule sint_word_of_int_64)
  then show ?thesis
    by (simp add: np_sum_int64_def sum_list_word_of_int cmac_of_def)
qed

lemma scan_windows_in_bin:
  "list_all (in_bin mac bin) outs \<Longrightarrow> distinct p \<Longrightarrow> set p \<subseteq> {..<length mac} \<Longrightarrow>
   \<forall>m\<in>set mac. 0 \<le> m \<Longrightarrow> sum_list mac < 2 ^ 63 \<Longrightarrow>
   list_all (in_bin mac bin) (scan_windows mac bin n_genes p w n start outs)"
proof (induction mac bin n_genes p w n start outs rule: scan_windows.induct)
  case (1 mac bin n_genes p w n start outs)
  let ?sel = "take (start + w - start) (drop start p)"
  have dsel: "distinct ?sel"
    using "1.prems"(2) by simp
  have ssel: "set ?sel \<subseteq> {..<length mac}"
  proof -
    have "set ?sel \<subseteq> set p"
      by (meson set_take_subset set_drop_subset subset_trans)
    with "1.prems"(3) show ?thesis by blast
  qed
  have exact: "np_sum_int64 mac ?sel = cmac_of mac ?sel"
    by (rule np_sum_int64_exact[OF dsel ssel "1.prems"(4) "1.prems"(5)])
  show ?case
  proof (cases "start + w < n")
    case False
    with "1.prems"(1) show ?thesis
      by (subst scan_windows.simps) (simp add: Let_def)
  next
    case lt: True
    show ?thesis
    proof (cases "fst bin \<le> np_sum_int64 mac ?sel \<and> np_sum_int64 mac ?sel \<le> snd bin")
      case hit: True
      with exact have "in_bin mac bin ?sel" by (simp add: in_bin_def)
      with "1.prems"(1) have all: "list_all (in_bin mac bin) (outs @ [?sel])" by simp
      show ?thesis
      proof (cases "n_genes \<le> int (length (outs @ [?sel]))")
        case True
        with lt hit all show ?thesis
          by (subst scan_windows.simps) (simp add: Let_def)
      next
        case False
        from "1.IH"(1)[OF refl lt refl refl refl hit False all "1.prems"(2-5)] lt hit False
        show ?thesis
          by (subst scan_windows.simps) (simp add: Let_def)
      qed
    next
      case miss: False
      from "1.IH"(2)[OF refl lt refl refl refl miss "1.prems"] lt miss
      show ?thesis
        by (subst scan_windows.simps) (auto simp add: Let_def)
    qed
  qed
qed

lemma map_nth_upt_id:
  "set pm \<subseteq> {..<n} \<Longrightarrow> map (\<lambda>i. [0..<n] ! i) pm = pm"
  by (induction pm) simp_all

lemma null_bin_loop_in_bin:
  "null_bin_loop mac bin n_genes vi n wr t outs = Returns (outs', t') \<Longrightarrow>
   list_all (in_bin mac bin) outs \<Longrightarrow> vi = [0..<n] \<Longrightarrow> n = length mac \<Longrightarrow>
   \<forall>m\<in>set mac. 0 \<le> m \<Longrightarrow> sum_list mac < 2 ^ 63 \<Longrightarrow>
   list_all (in_bin mac bin) outs'"
proof (induction mac bin n_genes vi n wr t outs rule: null_bin_loop.induct)
  case (1 mac bin n_genes vi n wr t outs)
  note unfold = null_bin_loop.simps[of mac bin n_genes vi n wr t outs]
  from "1.prems"(1) unfold obtain pm t1 where p: "np_permutation n t = Returns (pm, t1)"
    by (cases "np_permutation n t") auto
  from "1.prems"(1) unfold p obtain ws t2 where
    r: "np_randint (fst wr) (snd wr) t1 = Returns (ws, t2)"
    by (cases "np_randint (fst wr) (snd wr) t1") auto
  from np_permutation_distinct_set[OF p]
  have dpm: "distinct pm" and spm: "set pm = {..<n}" by simp_all
  from spm "1.prems"(3) have idx: "map (\<lambda>i. vi ! i) pm = pm"
    by (simp add: map_nth_upt_id)
  from spm "1.prems"(4) have sub: "set pm \<subseteq> {..<length mac}" by simp
  let ?outs = "scan_windows mac bin n_genes (map (\<lambda>i. vi ! i) pm) (nat ws) n 0 outs"
  have "list_all (in_bin mac bin) (scan_windows mac bin n_genes pm (nat ws) n 0 outs)"
    by (rule scan_windows_in_bin[OF "1.prems"(2) dpm sub "1.prems"(5) "1.prems"(6)])
  with idx have all: "list_all (in_bin mac bin) ?outs" by simp
  show ?case
  proof (cases "n_genes \<le> int (length ?outs)")
    case True
    with "1.prems"(1) unfold p r have "outs' = ?outs" by (simp add: Let_def)
    with all show ?thesis by simp
  next
    case False
    with "1.prems"(1) unfold p r
    have "null_bin_loop mac bin n_genes vi n wr t2 ?outs = Returns (outs', t')"
      by (simp add: Let_def)
    from "1.IH"[OF p refl r refl refl refl False this all "1.prems"(3-6)] show ?thesis .
  qed
qed

lemma null_bins_in_bin:
  "null_bins mac n_genes vi n bins t = Returns (gene_numeric_idxs, t') \<Longrightarrow>
   (bin, outs) \<in> set gene_numeric_idxs \<Longrightarrow> vi = [0..<n] \<Longrightarrow> n = length mac \<Longrightarrow>
   \<forall>m\<in>set mac. 0 \<le> m \<Longrightarrow> sum_list mac < 2 ^ 63 \<Longrightarrow>
   list_all (in_bin mac bin) outs"
proof (induction bins arbitrary: t gene_numeric_idxs)
  case Nil
  then show ?case by simp
next
  case (Cons b bins)
  let ?wr = "(max 2 (fst b div 10), snd b + 1)"
  from Cons.prems(1) obtain out1 t1 where
    l: "null_bin_loop mac b n_genes vi n ?wr t [] = Returns (out1, t1)"
    by (cases "null_bin_loop mac b n_genes vi n ?wr t []") (auto simp: Let_def)
  from Cons.prems(1) l obtain g where
    r: "null_bins mac n_genes vi n bins t1 = Returns (g, t')"
    and g: "gene_numeric_idxs = (b, out1) # g"
    by (cases "null_bins mac n_genes vi n bins t1") (auto simp: Let_def)
  have "list_all (in_bin mac b) []" by simp
  from null_bin_loop_in_bin[OF l this Cons.prems(3-6)]
  have "list_all (in_bin mac b) out1" .
  with Cons.IH[OF r _ Cons.prems(3-6)] Cons.prems(2) g show ?case by auto
qed

lemma null_chrs_in_bin:
  "null_chrs mac_dict nvl ngl ics t = Returns (chr_gene_numeric_idxs, t') \<Longrightarrow>
   (chr, gene_numeric_idxs) \<in> set chr_gene_numeric_idxs \<Longrightarrow>
   (bin, outs) \<in> set gene_numeric_idxs \<Longrightarrow>
   map_of mac_dict chr = Some mac \<Longrightarrow>
   \<forall>(i, c)\<in>set ics. \<forall>m. map_of mac_dict c = Some m \<longrightarrow> i < length nvl \<longrightarrow> nvl ! i = length m \<Longrightarrow>
   \<forall>m\<in>set mac. 0 \<le> m \<Longrightarrow> sum_list mac < 2 ^ 63 \<Longrightarrow>
   list_all (in_bin mac bin) outs"
proof (induction ics arbitrary: t chr_gene_numeric_idxs)
  case Nil
  then show ?case by simp
next
  case (Cons ic ics)
  obtain i c where ic: "ic = (i, c)" by (cases ic)
  from Cons.prems(1) ic obtain mac0 where m: "map_of mac_dict c = Some mac0"
    by (cases "map_of mac_dict c") auto
  from Cons.prems(1) ic m have ok: "\<not> (length nvl \<le> i \<or> length ngl \<le> i)"
    by (auto split: if_splits)
  from Cons.prems(5) ic m ok have len: "nvl ! i = length mac0" by simp
  from Cons.prems(5) have rest_len:
    "\<forall>(i, c)\<in>set ics. \<forall>m. map_of mac_dict c = Some m \<longrightarrow> i < length nvl \<longrightarrow> nvl ! i = length m"
    by simp
  from Cons.prems(1) ic m ok obtain g1 t1 where
    b: "null_bins mac0 (ngl ! i) [0..<nvl ! i] (nvl ! i) cmac_bins t = Returns (g1, t1)"
    by (cases "null_bins mac0 (ngl ! i) [0..<nvl ! i] (nvl ! i) cmac_bins t")
       (auto simp: Let_def)
  from Cons.prems(1) ic m ok b obtain rest where
    r: "null_chrs mac_dict nvl ngl ics t1 = Returns (rest, t')"
    and res: "chr_gene_numeric_idxs = (c, g1) # rest"
    by (cases "null_chrs mac_dict nvl ngl ics t1") (auto simp: Let_def)
  from Cons.prems(2) res
  consider "chr = c" "gene_numeric_idxs = g1" | "(chr, gene_numeric_idxs) \<in> set rest"
    by auto
  then show ?case
  proof cases
    case 1
    with m Cons.prems(4) have same: "mac0 = mac" by simp
    from 1 Cons.prems(3) have mem: "(bin, outs) \<in> set g1" by simp
    from b same have b': "null_bins mac (ngl ! i) [0..<nvl ! i] (nvl ! i) cmac_bins t
        = Returns (g1, t1)" by simp
    from len same have len': "nvl ! i = length mac" by simp
    show ?thesis
      by (rule null_bins_in_bin[OF b' mem refl len' Cons.prems(6) Cons.prems(7)])
  next
    case 2
    from Cons.IH[OF r 2 Cons.prems(3) Cons.prems(4) rest_len Cons.prems(6) Cons.prems(7)]
    show ?thesis .
  qed
qed

lemma enumerate_lengths:
  assumes "distinct (map fst mac_dict)"
  shows "\<forall>(i, c)\<in>set (enumerate 0 (map fst mac_dict)). \<forall>m. map_of mac_dict c = Some m \<longrightarrow>
           i < length (map (\<lambda>(_, mac). length mac) mac_dict) \<longrightarrow>
           map (\<lambda>(_, mac). length mac) mac_dict ! i = length m"
proof (intro ballI, clarify)
  fix i c m
  assume mem: "(i, c) \<in> set (enumerate 0 (map fst mac_dict))"
    and look: "map_of mac_dict c = Some m"
  from mem have i: "i < length mac_dict" and c: "c = fst (mac_dict ! i)"
    by (auto simp: in_set_enumerate_eq)
  from i have "mac_dict ! i \<in> set mac_dict" by simp
  then have "(c, snd (mac_dict ! i)) \<in> set mac_dict" by (simp add: c)
  with assms have "map_of mac_dict c = Some (snd (mac_dict ! i))" by simp
  with look have "m = snd (mac_dict ! i)" by simp
  with i show "map (\<lambda>(_, mac). length mac) mac_dict ! i = length m"
    by (simp add: case_prod_beta)
qed

text \<open>
  Claim C3. In null mode, whenever the mask builder returns, every variant-index array
  stored for a chromosome and a bin \<open>(lo, hi)\<close> has the sum of its members' MACs in the
  closed interval \<open>[lo, hi]\<close>. The sum of line 254 is an \<^verbatim>\<open>int64\<close> sum; the MACs are
  counts (non-negative) whose total over the chromosome is below \<open>2^63\<close>, and the keys of
  the dictionary are distinct, as the keys of a Python dictionary are.
\<close>

theorem creating_mask_null_in_bin:
  assumes "creating_mask_null mac_dict n_genes_chr_list t = Returns (chr_gene_numeric_idxs, t')"
    and "(chr, gene_numeric_idxs) \<in> set chr_gene_numeric_idxs"
    and "((lo, hi), stored) \<in> set gene_numeric_idxs"
    and "selected_variants \<in> set stored"
    and "map_of mac_dict chr = Some mac"
    and "distinct (map fst mac_dict)"
    and "\<forall>m\<in>set mac. 0 \<le> m"
    and "sum_list mac < 2 ^ 63"
  shows "lo \<le> cmac_of mac selected_variants \<and> cmac_of mac selected_variants \<le> hi"
proof -
  from assms(1) have "null_chrs mac_dict (map (\<lambda>(_, mac). length mac) mac_dict) n_genes_chr_list
      (enumerate 0 (map fst mac_dict)) t = Returns (chr_gene_numeric_idxs, t')"
    by (simp add: creating_mask_null_def Let_def)
  from null_chrs_in_bin[OF this assms(2) assms(3) assms(5) enumerate_lengths[OF assms(6)]
      assms(7) assms(8)]
  have "list_all (in_bin mac (lo, hi)) stored" .
  with assms(4) show ?thesis by (simp add: list_all_iff in_bin_def)
qed

theorem creating_mask_null_in_bin_witness:
  "creating_mask_null [(2, [1, 1, 1])] [0] (replicate 28 0) =
     Returns ([(2, [((2, 2), [[0, 1]]), ((3, 3), []), ((4, 4), []), ((5, 5), []), ((6, 7), []),
                    ((8, 9), []), ((10, 11), []), ((12, 14), []), ((15, 20), []),
                    ((21, 30), []), ((31, 60), []), ((61, 100), []), ((101, 500), []),
                    ((501, 1000), [])])], [])
   \<and> 2 \<le> cmac_of [1, 1, 1] [0, 1] \<and> cmac_of [1, 1, 1] [0, 1] \<le> 2"
proof -
  let ?g = "[((2, 2), [[0, 1]]), ((3, 3), []), ((4, 4), []), ((5, 5), []), ((6, 7), []),
             ((8, 9), []), ((10, 11), []), ((12, 14), []), ((15, 20), []),
             ((21, 30), []), ((31, 60), []), ((61, 100), []), ((101, 500), []),
             ((501, 1000), [])] :: (cmac_bin \<times> nat list list) list"
  have h1: "creating_mask_null [(2, [1, 1, 1])] [0] (replicate 28 0) = Returns ([(2, ?g)], [])"
    by code_simp
  have h2: "(2, ?g) \<in> set [(2::nat, ?g)]" by simp
  have h3: "((2, 2), [[0, 1]]) \<in> set ?g" by simp
  have h4: "[0, 1] \<in> set [[0, 1::nat]]" by simp
  have h5: "map_of [(2::nat, [1, 1, 1::int])] 2 = Some [1, 1, 1]" by simp
  have h6: "distinct (map fst [(2::nat, [1, 1, 1::int])])" by simp
  have h7: "\<forall>m\<in>set [1, 1, 1::int]. 0 \<le> m" by simp
  have h8: "sum_list [1, 1, 1::int] < 2 ^ 63" by simp
  have "2 \<le> cmac_of [1, 1, 1] [0, 1] \<and> cmac_of [1, 1, 1] [0, 1] \<le> 2"
    by (rule creating_mask_null_in_bin[OF h1 h2 h3 h4 h5 h6 h7 h8])
  with h1 show ?thesis by blast
qed

section \<open>Causal mode: composition and cMAC of the stored sets\<close>

lemma dict_positions_append:
  "dict_positions (dict_append d k v) = insert v (dict_positions d)"
  by (induction d k v rule: dict_append.induct) (auto simp: dict_positions_def)

lemma consistent_dict_append:
  "consistent mac d \<Longrightarrow> i < length mac \<Longrightarrow> mac ! i = x \<Longrightarrow>
   consistent mac (dict_append d x i)"
  by (induction d x i rule: dict_append.induct) (auto simp: consistent_def)

lemma consistent_foldl_append:
  "consistent mac d \<Longrightarrow> list_all (\<lambda>(i, x). i < length mac \<and> mac ! i = x) xs \<Longrightarrow>
   consistent mac (foldl (\<lambda>d (mac_i, x). dict_append d x mac_i) d xs)"
proof (induction xs arbitrary: d)
  case Nil
  then show ?case by simp
next
  case (Cons y ys)
  obtain i x where y: "y = (i, x)" by (cases y)
  with Cons.prems have "consistent mac (dict_append d x i)"
    by (simp add: consistent_dict_append)
  with Cons.IH[of "dict_append d x i"] Cons.prems(2) y show ?case by simp
qed

lemma consistent_build_mac_positions: "consistent mac (build_mac_positions mac)"
proof -
  have "list_all (\<lambda>(i, x). i < length mac \<and> mac ! i = x) (enumerate 0 mac)"
    by (auto simp: list_all_iff in_set_enumerate_eq)
  moreover have "consistent mac []" by (simp add: consistent_def)
  ultimately show ?thesis
    unfolding build_mac_positions_def by (rule consistent_foldl_append[rotated])
qed

lemma build_causal_mac_positions_ok:
  "build_causal_mac_positions mac idxs d = Inr d' \<Longrightarrow> consistent mac d \<Longrightarrow>
   consistent mac d' \<and> dict_positions d' = dict_positions d \<union> set idxs"
proof (induction idxs arbitrary: d)
  case Nil
  then show ?case by simp
next
  case (Cons idx idxs)
  from Cons.prems(1) have lt: "idx < length mac" by (auto split: if_splits)
  with Cons.prems(1)
  have r: "build_causal_mac_positions mac idxs (dict_append d (mac ! idx) idx) = Inr d'"
    by simp
  from consistent_dict_append[OF Cons.prems(2) lt refl]
  have "consistent mac (dict_append d (mac ! idx) idx)" .
  from Cons.IH[OF r this] show ?case by (auto simp: dict_positions_append)
qed

lemma np_randint_range:
  "np_randint low high t = Returns (x, t') \<Longrightarrow> low \<le> x \<and> x < high"
proof -
  assume a: "np_randint low high t = Returns (x, t')"
  then have lt: "low < high" by (auto simp: np_randint.simps split: if_splits)
  from a lt obtain r where x: "x = low + int (r mod nat (high - low))"
    by (cases t) (auto simp: np_randint.simps)
  from lt have "r mod nat (high - low) < nat (high - low)" by simp
  with x lt show ?thesis by linarith
qed

lemma select_variants_for_cmac_from_pool:
  assumes "consistent mac d" and "1 \<le> cmac"
    and "select_variants_for_cmac d cmac t = Returns (vs, t')"
  shows "vs \<noteq> [] \<and> set vs \<subseteq> dict_positions d \<and> cmac_of mac vs = cmac"
proof -
  from assms(2) have nn: "0 \<le> cmac" by simp
  from select_variants_for_cmac_sum[OF assms(1) nn assms(3)]
  have s: "cmac_of mac vs = cmac" .
  with assms(2) have "vs \<noteq> []" by (auto simp: cmac_of_def)
  moreover from assms(3) obtain combo t1 where
    p: "pick_variants d combo t1 = Returns (vs, t')"
    unfolding select_variants_for_cmac_def Let_def
    by (cases "select_combo (filter (\<lambda>m. m \<le> cmac) (dict_keys d)) cmac 0 [] t") auto
  from pick_variants_macs[OF p assms(1)] have "set vs \<subseteq> dict_positions d"
    by (simp add: dict_positions_def)
  ultimately show ?thesis using s by simp
qed

lemma cmac_of_append: "cmac_of mac (xs @ ys) = cmac_of mac xs + cmac_of mac ys"
  by (simp add: cmac_of_def)

lemma causal_inner_sets:
  "causal_inner mp bin n_genes c cv n_added t outs = Returns (outs', t') \<Longrightarrow>
   consistent mac mp \<Longrightarrow> cv \<noteq> [] \<Longrightarrow> set cv \<subseteq> S \<Longrightarrow> cmac_of mac cv = c \<Longrightarrow>
   list_all (causal_set mac S bin) outs \<Longrightarrow> list_all (causal_set mac S bin) outs'"
proof (induction mp bin n_genes c cv n_added t outs rule: causal_inner.induct)
  case (1 mp bin n_genes c cv n_added t outs)
  note unfold = causal_inner.simps[of mp bin n_genes c cv n_added t outs]
  show ?case
  proof (cases "n_added < 10")
    case False
    with "1.prems" unfold show ?thesis by simp
  next
    case True
    let ?lo = "max (fst bin - c) 1" and ?hi = "snd bin - c + 1"
    from True "1.prems"(1) unfold obtain nc t1 where
      r: "np_randint ?lo ?hi t = Returns (nc, t1)"
      by (cases "np_randint ?lo ?hi t") auto
    from True "1.prems"(1) unfold r obtain ncv t2 where
      s: "select_variants_for_cmac mp nc t1 = Returns (ncv, t2)"
      by (cases "select_variants_for_cmac mp nc t1") auto
    from np_randint_range[OF r] have rng: "?lo \<le> nc" "nc < ?hi" by simp_all
    then have "0 \<le> nc" by simp
    from select_variants_for_cmac_sum[OF "1.prems"(2) this s]
    have "cmac_of mac ncv = nc" .
    with "1.prems"(5) have "cmac_of mac (ncv @ cv) = nc + c"
      by (simp add: cmac_of_append)
    with rng have "fst bin \<le> cmac_of mac (ncv @ cv)" "cmac_of mac (ncv @ cv) \<le> snd bin"
      by simp_all
    with "1.prems"(3,4) have "causal_set mac S bin (ncv @ cv)"
      unfolding causal_set_def by blast
    with "1.prems"(6) have all: "list_all (causal_set mac S bin) (outs @ [ncv @ cv])" by simp
    show ?thesis
    proof (cases "n_genes \<le> int (length (outs @ [ncv @ cv]))")
      case fin: True
      with True "1.prems"(1) unfold r s have "outs' = outs @ [ncv @ cv]" by (simp add: Let_def)
      with all show ?thesis by simp
    next
      case more: False
      with True "1.prems"(1) unfold r s
      have "causal_inner mp bin n_genes c cv (n_added + 1) t2 (outs @ [ncv @ cv])
              = Returns (outs', t')"
        by (simp add: Let_def)
      from "1.IH"[OF True r refl s refl refl more this "1.prems"(2,3,4,5) all]
      show ?thesis .
    qed
  qed
qed

lemma causal_bin_loop_sets:
  "causal_bin_loop mp cmp bin n_genes t outs = Returns (outs', t') \<Longrightarrow>
   consistent mac mp \<Longrightarrow> consistent mac cmp \<Longrightarrow> dict_positions cmp \<subseteq> S \<Longrightarrow>
   list_all (causal_set mac S bin) outs \<Longrightarrow> list_all (causal_set mac S bin) outs'"
proof (induction mp cmp bin n_genes t outs rule: causal_bin_loop.induct)
  case (1 mp cmp bin n_genes t outs)
  note unfold = causal_bin_loop.simps[of mp cmp bin n_genes t outs]
  let ?ub = "max ((fst bin + snd bin) div 2 div 2) 2"
  from "1.prems"(1) unfold obtain c t1 where r: "np_randint 1 ?ub t = Returns (c, t1)"
    by (cases "np_randint 1 ?ub t") (auto simp: Let_def)
  from "1.prems"(1) unfold r obtain cv t2 where
    s: "select_variants_for_cmac cmp c t1 = Returns (cv, t2)"
    by (cases "select_variants_for_cmac cmp c t1") (auto simp: Let_def)
  from "1.prems"(1) unfold r s obtain out1 t3 where
    i: "causal_inner mp bin n_genes c cv 0 t2 outs = Returns (out1, t3)"
    by (cases "causal_inner mp bin n_genes c cv 0 t2 outs") (auto simp: Let_def)
  from np_randint_range[OF r] have "1 \<le> c" by simp
  from select_variants_for_cmac_from_pool[OF "1.prems"(3) this s] "1.prems"(4)
  have cv: "cv \<noteq> []" "set cv \<subseteq> S" "cmac_of mac cv = c" by auto
  from causal_inner_sets[OF i "1.prems"(2) cv "1.prems"(5)]
  have all: "list_all (causal_set mac S bin) out1" .
  show ?case
  proof (cases "n_genes \<le> int (length out1)")
    case True
    with "1.prems"(1) unfold r s i have "outs' = out1" by (simp add: Let_def)
    with all show ?thesis by simp
  next
    case False
    with "1.prems"(1) unfold r s i
    have "causal_bin_loop mp cmp bin n_genes t3 out1 = Returns (outs', t')"
      by (simp add: Let_def)
    from "1.IH"[OF refl r refl s refl i refl False this "1.prems"(2,3,4) all]
    show ?thesis .
  qed
qed

lemma causal_bins_sets:
  "causal_bins mp cmp n_genes bins t = Returns (gene_numeric_idxs, t') \<Longrightarrow>
   consistent mac mp \<Longrightarrow> consistent mac cmp \<Longrightarrow> dict_positions cmp \<subseteq> S \<Longrightarrow>
   (bin, outs) \<in> set gene_numeric_idxs \<Longrightarrow> list_all (causal_set mac S bin) outs"
proof (induction bins arbitrary: t gene_numeric_idxs)
  case Nil
  then show ?case by simp
next
  case (Cons b bins)
  from Cons.prems(1) obtain out1 t1 where
    l: "causal_bin_loop mp cmp b n_genes t [] = Returns (out1, t1)"
    by (cases "causal_bin_loop mp cmp b n_genes t []") auto
  from Cons.prems(1) l obtain g where
    r: "causal_bins mp cmp n_genes bins t1 = Returns (g, t')"
    and g: "gene_numeric_idxs = (b, out1) # g"
    by (cases "causal_bins mp cmp n_genes bins t1") auto
  from causal_bin_loop_sets[OF l Cons.prems(2,3,4)]
  have "list_all (causal_set mac S b) out1" by simp
  with Cons.IH[OF r Cons.prems(2,3,4)] Cons.prems(5) g show ?case by auto
qed

lemma causal_chrs_sets:
  "causal_chrs mac_dict causal_idx_dict nvl ngl ics t = Returns (chr_gene_numeric_idxs, t') \<Longrightarrow>
   (chr, gene_numeric_idxs) \<in> set chr_gene_numeric_idxs \<Longrightarrow>
   (bin, outs) \<in> set gene_numeric_idxs \<Longrightarrow>
   map_of mac_dict chr = Some mac \<Longrightarrow> map_of causal_idx_dict chr = Some causal_idxs \<Longrightarrow>
   list_all (causal_set mac (set causal_idxs) bin) outs"
proof (induction ics arbitrary: t chr_gene_numeric_idxs)
  case Nil
  then show ?case by simp
next
  case (Cons ic ics)
  obtain i c where ic: "ic = (i, c)" by (cases ic)
  from Cons.prems(1) ic obtain mac0 where m: "map_of mac_dict c = Some mac0"
    by (cases "map_of mac_dict c") auto
  from Cons.prems(1) ic m have ok: "\<not> (length nvl \<le> i \<or> length ngl \<le> i)"
    by (auto split: if_splits)
  from Cons.prems(1) ic m ok obtain idxs0 where ci: "map_of causal_idx_dict c = Some idxs0"
    by (cases "map_of causal_idx_dict c") auto
  from Cons.prems(1) ic m ok ci obtain cmp where
    bc: "build_causal_mac_positions mac0 idxs0 [] = Inr cmp"
    by (cases "build_causal_mac_positions mac0 idxs0 []") (auto simp: Let_def)
  let ?mp = "build_mac_positions mac0"
  from Cons.prems(1) ic m ok ci bc obtain g1 t1 where
    b: "causal_bins ?mp cmp (ngl ! i) cmac_bins t = Returns (g1, t1)"
    by (cases "causal_bins ?mp cmp (ngl ! i) cmac_bins t") (auto simp: Let_def)
  from Cons.prems(1) ic m ok ci bc b obtain rest where
    r: "causal_chrs mac_dict causal_idx_dict nvl ngl ics t1 = Returns (rest, t')"
    and res: "chr_gene_numeric_idxs = (c, g1) # rest"
    by (cases "causal_chrs mac_dict causal_idx_dict nvl ngl ics t1") (auto simp: Let_def)
  from Cons.prems(2) res
  consider "chr = c" "gene_numeric_idxs = g1" | "(chr, gene_numeric_idxs) \<in> set rest"
    by auto
  then show ?case
  proof cases
    case 1
    with m ci Cons.prems(4,5) have eq: "mac0 = mac" "idxs0 = causal_idxs" by simp_all
    have "consistent mac0 []" by (simp add: consistent_def)
    from build_causal_mac_positions_ok[OF bc this]
    have cmp: "consistent mac0 cmp" "dict_positions cmp \<subseteq> set idxs0"
      by (simp_all add: dict_positions_def)
    from causal_bins_sets[OF b consistent_build_mac_positions cmp, of bin outs]
      1 Cons.prems(3) eq
    show ?thesis by simp
  next
    case 2
    from Cons.IH[OF r 2 Cons.prems(3,4,5)] show ?thesis .
  qed
qed

text \<open>
  Claim C4. In causal mode, whenever the mask builder returns, every stored set of a
  chromosome and a bin \<open>(lo, hi)\<close> ends with a non-empty draw from the causal
  dictionary, all of whose members are causal positions, and the cMAC of the whole set
  (non-causal draw plus causal draw, members counted as often as they occur) lies in
  \<open>[lo, hi]\<close>. The builder stores the set without testing its cMAC.
\<close>

theorem creating_mask_causal_sets:
  assumes "creating_mask_causal mac_dict causal_idx_dict n_genes_chr_list t
             = Returns (chr_gene_numeric_idxs, t')"
    and "(chr, gene_numeric_idxs) \<in> set chr_gene_numeric_idxs"
    and "((lo, hi), stored) \<in> set gene_numeric_idxs"
    and "selected_variants \<in> set stored"
    and "map_of mac_dict chr = Some mac"
    and "map_of causal_idx_dict chr = Some causal_idxs"
  shows "(\<exists>non_causal_variants causal_variants.
            selected_variants = non_causal_variants @ causal_variants
            \<and> causal_variants \<noteq> [] \<and> set causal_variants \<subseteq> set causal_idxs)
         \<and> lo \<le> cmac_of mac selected_variants \<and> cmac_of mac selected_variants \<le> hi"
proof -
  from assms(1)
  have "causal_chrs mac_dict causal_idx_dict (map (\<lambda>(_, mac). length mac) mac_dict)
          n_genes_chr_list (enumerate 0 (map fst mac_dict)) t
        = Returns (chr_gene_numeric_idxs, t')"
    by (simp add: creating_mask_causal_def Let_def)
  from causal_chrs_sets[OF this assms(2,3,5,6)]
  have "list_all (causal_set mac (set causal_idxs) (lo, hi)) stored" .
  with assms(4) have "causal_set mac (set causal_idxs) (lo, hi) selected_variants"
    by (simp add: list_all_iff)
  then show ?thesis by (simp add: causal_set_def)
qed

theorem creating_mask_causal_sets_witness:
  "creating_mask_causal [(1, [500, 100, 60, 30, 20, 14, 11, 9, 7, 5, 4, 3, 2, 1, 1])]
     [(1, [14])] [0] (replicate 112 0) =
     Returns ([(1, [((2, 2), [[13, 14]]), ((3, 3), [[12, 14]]), ((4, 4), [[11, 14]]),
                    ((5, 5), [[10, 14]]), ((6, 7), [[9, 14]]), ((8, 9), [[8, 14]]),
                    ((10, 11), [[7, 14]]), ((12, 14), [[6, 14]]), ((15, 20), [[5, 14]]),
                    ((21, 30), [[4, 14]]), ((31, 60), [[3, 14]]), ((61, 100), [[2, 14]]),
                    ((101, 500), [[1, 14]]), ((501, 1000), [[0, 14]])])], [])
   \<and> (\<exists>non_causal_variants causal_variants.
          [0, 14] = non_causal_variants @ causal_variants
          \<and> causal_variants \<noteq> [] \<and> set causal_variants \<subseteq> set [14::nat])
   \<and> 501 \<le> cmac_of [500, 100, 60, 30, 20, 14, 11, 9, 7, 5, 4, 3, 2, 1, 1] [0, 14]
   \<and> cmac_of [500, 100, 60, 30, 20, 14, 11, 9, 7, 5, 4, 3, 2, 1, 1] [0, 14] \<le> 1000"
proof -
  let ?mac = "[500, 100, 60, 30, 20, 14, 11, 9, 7, 5, 4, 3, 2, 1, 1] :: int list"
  let ?g = "[((2, 2), [[13, 14]]), ((3, 3), [[12, 14]]), ((4, 4), [[11, 14]]),
             ((5, 5), [[10, 14]]), ((6, 7), [[9, 14]]), ((8, 9), [[8, 14]]),
             ((10, 11), [[7, 14]]), ((12, 14), [[6, 14]]), ((15, 20), [[5, 14]]),
             ((21, 30), [[4, 14]]), ((31, 60), [[3, 14]]), ((61, 100), [[2, 14]]),
             ((101, 500), [[1, 14]]), ((501, 1000), [[0, 14]])]
            :: (cmac_bin \<times> nat list list) list"
  have h1: "creating_mask_causal [(1, ?mac)] [(1, [14])] [0] (replicate 112 0)
              = Returns ([(1, ?g)], [])"
    by code_simp
  have h2: "(1, ?g) \<in> set [(1::nat, ?g)]" by simp
  have h3: "((501, 1000), [[0, 14]]) \<in> set ?g" by simp
  have h4: "[0, 14] \<in> set [[0, 14::nat]]" by simp
  have h5: "map_of [(1::nat, ?mac)] 1 = Some ?mac" by simp
  have h6: "map_of [(1::nat, [14::nat])] 1 = Some [14]" by simp
  have "(\<exists>non_causal_variants causal_variants.
          [0, 14] = non_causal_variants @ causal_variants
          \<and> causal_variants \<noteq> [] \<and> set causal_variants \<subseteq> set [14::nat])
        \<and> 501 \<le> cmac_of ?mac [0, 14] \<and> cmac_of ?mac [0, 14] \<le> 1000"
    by (rule creating_mask_causal_sets[OF h1 h2 h3 h4 h5 h6])
  with h1 show ?thesis by blast
qed

lemma dict_positions_foldl_append:
  "dict_positions (foldl (\<lambda>d (mac_i, x). dict_append d x mac_i) d xs)
     = dict_positions d \<union> fst ` set xs"
proof (induction xs arbitrary: d)
  case Nil
  then show ?case by simp
next
  case (Cons y ys)
  obtain i x where y: "y = (i, x)" by (cases y)
  from Cons.IH[of "dict_append d x i"] y show ?case
    by (simp add: dict_positions_append)
qed

lemma dict_positions_build_mac_positions:
  "dict_positions (build_mac_positions mac) = {0..<length mac}"
proof -
  have "fst ` set (enumerate 0 mac) = {0..<length mac}"
    by (simp flip: set_map)
  moreover have "dict_positions [] = {}" by (simp add: dict_positions_def)
  ultimately show ?thesis
    unfolding build_mac_positions_def dict_positions_foldl_append by simp
qed

text \<open>
  Claim C1 on the code. Lines 299-300 compute the positions without the causal ones and
  never use them: the dictionary for the non-causal draw is filled from every position of
  the MAC vector (lines 303-305). With MAC vector \<open>[1, 1]\<close> and causal position \<open>0\<close>
  that dictionary lists position \<open>0\<close>, and a run for the bin \<open>(2, 2)\<close> stores the set
  \<open>[0, 0]\<close>, whose non-causal member is the causal position.
\<close>

theorem non_causal_pool_contains_causal:
  "setdiff1d [0..<2] [0] = [1]
   \<and> build_mac_positions [1, 1] = [(1, [0, 1])]
   \<and> build_causal_mac_positions [1, 1] [0] [] = Inr [(1, [0])]
   \<and> causal_bin_loop (build_mac_positions [1, 1]) [(1, [0])] (2, 2) 1 (replicate 8 0) []
       = Returns ([[0, 0]], [])"
  by code_simp

section \<open>The linkage matrix\<close>

lemma sum_list_of_nat_word:
  "sum_list (map (\<lambda>s. (of_nat (f s) :: 16 word) * of_nat (g s)) xs)
     = of_nat (sum_list (map (\<lambda>s. f s * g s) xs))"
  by (induction xs) simp_all

lemma map_of_get_ld_matrix:
  "map_of (get_ld_matrix d) chr =
     map_option (\<lambda>vset. mat_mul (mat_astype of_nat vset) (mat_transpose (mat_astype of_nat vset)))
       (map_of d chr)"
  by (induction d) (auto simp: get_ld_matrix_def Let_def)

lemma ld_entry:
  "entry (mat_mul (mat_astype of_nat vset) (mat_transpose (mat_astype of_nat vset))) a b
     = (of_nat (cooccurrence vset a b) :: 16 word)"
  by (simp add: mat_mul_def mat_astype_def mat_transpose_def cooccurrence_def
        sum_list_of_nat_word)

text \<open>
  Claim C9, as the code has it. The linkage matrix is computed on the genotype matrix
  cast to unsigned 16-bit integers; it is square over the variants, and every entry is
  the true co-occurrence count modulo \<open>65536\<close>, hence the true count whenever that
  count is below \<open>65536\<close>.
\<close>

theorem get_ld_matrix_entry:
  assumes "map_of sparse_genotype_dict chr = Some vset"
    and "a < nrows vset" and "b < nrows vset"
  shows "\<exists>vset_ld. map_of (get_ld_matrix sparse_genotype_dict) chr = Some vset_ld
           \<and> nrows vset_ld = nrows vset \<and> ncols vset_ld = nrows vset
           \<and> unat (entry vset_ld a b) = cooccurrence vset a b mod 65536
           \<and> (cooccurrence vset a b < 65536
                \<longrightarrow> unat (entry vset_ld a b) = cooccurrence vset a b)"
proof -
  let ?ld = "mat_mul (mat_astype (of_nat :: nat \<Rightarrow> 16 word) vset)
               (mat_transpose (mat_astype of_nat vset))"
  from assms(1) have "map_of (get_ld_matrix sparse_genotype_dict) chr = Some ?ld"
    by (simp add: map_of_get_ld_matrix)
  moreover have "unat (entry ?ld a b) = cooccurrence vset a b mod 65536"
    by (simp add: ld_entry unat_of_nat)
  moreover have "nrows ?ld = nrows vset" "ncols ?ld = nrows vset"
    by (simp_all add: mat_mul_def mat_astype_def mat_transpose_def)
  ultimately show ?thesis by simp
qed

theorem get_ld_matrix_entry_witness:
  "map_of [(1::nat, example_genotype)] 1 = Some example_genotype
   \<and> (0::nat) < nrows example_genotype \<and> (1::nat) < nrows example_genotype
   \<and> cooccurrence example_genotype 0 1 = 1
   \<and> (\<exists>vset_ld. map_of (get_ld_matrix [(1, example_genotype)]) 1 = Some vset_ld
          \<and> unat (entry vset_ld 0 1) = 1)"
proof -
  have h1: "map_of [(1::nat, example_genotype)] 1 = Some example_genotype" by simp
  have h2: "0 < nrows example_genotype" by (simp add: example_genotype_def)
  have h3: "1 < nrows example_genotype" by (simp add: example_genotype_def)
  have c: "cooccurrence example_genotype 0 1 = 1"
    by (simp add: cooccurrence_def example_genotype_def upt_rec)
  from get_ld_matrix_entry[OF h1 h2 h3] c
  have "\<exists>vset_ld. map_of (get_ld_matrix [(1, example_genotype)]) 1 = Some vset_ld
          \<and> unat (entry vset_ld 0 1) = 1"
    by auto
  with h1 h2 h3 c show ?thesis by blast
qed

lemma sum_list_map_const: "sum_list (map (\<lambda>s. c) [0..<n]) = n * (c::nat)"
  by (induction n) simp_all

lemma sum_list_carriers:
  "m \<le> n \<Longrightarrow> sum_list (map (\<lambda>s. if s < m then (c::nat) else 0) [0..<n]) = m * c"
proof (induction n)
  case 0
  then show ?case by simp
next
  case (Suc n)
  show ?case
  proof (cases "m \<le> n")
    case True
    with Suc.IH show ?thesis by simp
  next
    case False
    with Suc.prems have m: "m = Suc n" by simp
    have "map (\<lambda>s. if s < Suc n then c else 0) [0..<n] = map (\<lambda>s. c) [0..<n]"
      by (intro map_cong) auto
    then have "sum_list (map (\<lambda>s. if s < Suc n then c else 0) [0..<n]) = n * c"
      by (simp only: sum_list_map_const)
    then show ?thesis using m by simp
  qed
qed

text \<open>
  The claim as stated fails for a variant that 65536 of 262144 subjects carry once: the
  true count of the variant with itself is \<open>65536\<close>, and the entry of the linkage
  matrix is \<open>0\<close>.
\<close>

theorem get_ld_matrix_wraps:
  "cooccurrence common_genotype 0 0 = 65536
   \<and> map (\<lambda>(chr, vset_ld). (chr, nrows vset_ld, ncols vset_ld, entry vset_ld 0 0))
        (get_ld_matrix [(2, common_genotype)]) = [(2, 1, 1, 0)]"
proof -
  have "cooccurrence common_genotype 0 0
          = sum_list (map (\<lambda>s. if s < 65536 then 1 else 0) [0..<262144])"
  proof -
    have "(\<lambda>s::nat. (if s < 65536 then 1 else 0) * (if s < 65536 then 1 else 0))
            = (\<lambda>s. if s < 65536 then 1 else (0::nat))"
      by (rule ext) simp
    then show ?thesis
      unfolding cooccurrence_def common_genotype_def matrix.select_convs by (rule arg_cong)
  qed
  also have "\<dots> = 65536"
    using sum_list_carriers[of 65536 262144 1] by simp
  finally have c: "cooccurrence common_genotype 0 0 = 65536" .
  have "entry (mat_mul (mat_astype of_nat common_genotype)
                 (mat_transpose (mat_astype of_nat common_genotype))) 0 0 = (0 :: 16 word)"
    unfolding ld_entry c by simp
  then have "map (\<lambda>(chr, vset_ld). (chr, nrows vset_ld, ncols vset_ld, entry vset_ld 0 0))
        (get_ld_matrix [(2, common_genotype)]) = [(2, 1, 1, 0)]"
    by (simp add: get_ld_matrix_def Let_def)
       (simp add: mat_mul_def mat_astype_def mat_transpose_def common_genotype_def)
  with c show ?thesis by simp
qed

section \<open>The covariance matrix of a variant set\<close>


lemma map_result_map_of:
  assumes "map_result (\<lambda>(k, v). case f v of Inl e \<Rightarrow> Inl e | Inr w \<Rightarrow> Inr (k, w)) d = Inr d'"
    and "map_of d k = Some v"
  shows "\<exists>w. f v = Inr w \<and> map_of d' k = Some w"
  using assms
proof (induction d arbitrary: d')
  case Nil
  then show ?case by simp
next
  case (Cons item d)
  obtain k0 v0 where item: "item = (k0, v0)" by (cases item)
  from Cons.prems(1) item obtain w0 where w0: "f v0 = Inr w0" by (cases "f v0") auto
  from Cons.prems(1) item w0 obtain d0 where
    r: "map_result (\<lambda>(k, v). case f v of Inl e \<Rightarrow> Inl e | Inr w \<Rightarrow> Inr (k, w)) d = Inr d0"
    and d': "d' = (k0, w0) # d0"
    by (cases "map_result (\<lambda>(k, v). case f v of Inl e \<Rightarrow> Inl e | Inr w \<Rightarrow> Inr (k, w)) d") auto
  show ?case
  proof (cases "k0 = k")
    case True
    with Cons.prems(2) item have "v0 = v" by simp
    with w0 d' True show ?thesis by simp
  next
    case False
    with Cons.prems(2) item have "map_of d k = Some v" by simp
    from Cons.IH[OF r this] d' False show ?thesis by simp
  qed
qed










lemma upt_0_2: "[0..<2] = [0, 1]"
  by code_simp












section \<open>Symmetry and definiteness of the covariance matrix\<close>













section \<open>The reported rate of a bin\<close>

lemma bin_labels:
  "map bin_label all_bins =
     [''2_2'', ''3_3'', ''4_4'', ''5_5'', ''6_7'', ''8_9'', ''10_11'', ''12_14'', ''15_20'',
      ''21_30'', ''31_60'', ''61_100'', ''101_500'', ''501_1000'']"
  by code_simp

lemma dict_extend_keyed:
  "distinct bins \<Longrightarrow> k \<in> set bins \<Longrightarrow>
   dict_extend (map (\<lambda>b. (b, f b)) bins) k xs
     = Inr (map (\<lambda>b. (b, if b = k then f b @ xs else f b)) bins)"
proof (induction bins)
  case Nil
  then show ?case by simp
next
  case (Cons b bins)
  show ?case
  proof (cases "b = k")
    case True
    with Cons.prems(1) have "k \<notin> set bins" by simp
    then have "map (\<lambda>b. (b, if b = k then f b @ xs else f b)) bins = map (\<lambda>b. (b, f b)) bins"
      by (intro map_cong) auto
    with True show ?thesis by simp
  next
    case False
    with Cons.prems have "distinct bins" "k \<in> set bins" by auto
    from Cons.IH[OF this] False show ?thesis by simp
  qed
qed

lemma picked_simps [simp]:
  "picked b [] = []"
  "picked b ((b', xs) # items) = (if b' = b then xs else []) @ picked b items"
  by (simp_all add: picked_def)

lemma extend_bins_keyed:
  "distinct bins \<Longrightarrow> list_all (\<lambda>(b, xs). b \<in> set bins) items \<Longrightarrow>
   extend_bins (map (\<lambda>b. (b, f b)) bins) items
     = Inr (map (\<lambda>b. (b, f b @ picked b items)) bins)"
proof (induction items arbitrary: f)
  case Nil
  then show ?case by simp
next
  case (Cons item items)
  obtain k xs where item: "item = (k, xs)" by (cases item)
  with Cons.prems have k: "k \<in> set bins" and rest: "list_all (\<lambda>(b, xs). b \<in> set bins) items"
    by simp_all
  let ?f = "\<lambda>b. if b = k then f b @ xs else f b"
  have "extend_bins (map (\<lambda>b. (b, f b)) bins) (item # items)
          = extend_bins (map (\<lambda>b. (b, ?f b)) bins) items"
    using dict_extend_keyed[OF Cons.prems(1) k, of f xs] item by simp
  also have "\<dots> = Inr (map (\<lambda>b. (b, ?f b @ picked b items)) bins)"
    by (rule Cons.IH[OF Cons.prems(1) rest])
  also have "map (\<lambda>b. (b, ?f b @ picked b items)) bins
               = map (\<lambda>b. (b, f b @ picked b (item # items))) bins"
    using item by (intro map_cong) auto
  finally show ?case .
qed

lemma extend_chrs_keyed:
  "distinct bins \<Longrightarrow>
   list_all (\<lambda>(chr, items). list_all (\<lambda>(b, xs). b \<in> set bins) items) chrs \<Longrightarrow>
   extend_chrs (map (\<lambda>b. (b, f b)) bins) chrs
     = Inr (map (\<lambda>b. (b, f b @ picked_chrs b chrs)) bins)"
proof (induction chrs arbitrary: f)
  case Nil
  then show ?case by (simp add: picked_chrs_def)
next
  case (Cons c chrs)
  obtain chr items where c: "c = (chr, items)" by (cases c)
  with Cons.prems have items: "list_all (\<lambda>(b, xs). b \<in> set bins) items"
    and rest: "list_all (\<lambda>(chr, items). list_all (\<lambda>(b, xs). b \<in> set bins) items) chrs"
    by simp_all
  have "extend_chrs (map (\<lambda>b. (b, f b)) bins) (c # chrs)
          = extend_chrs (map (\<lambda>b. (b, f b @ picked b items)) bins) chrs"
    using extend_bins_keyed[OF Cons.prems(1) items, of f] c by simp
  also have "\<dots> = Inr (map (\<lambda>b. (b, (f b @ picked b items) @ picked_chrs b chrs)) bins)"
    by (rule Cons.IH[OF Cons.prems(1) rest])
  also have "map (\<lambda>b. (b, (f b @ picked b items) @ picked_chrs b chrs)) bins
               = map (\<lambda>b. (b, f b @ picked_chrs b (c # chrs))) bins"
    using c by (simp add: picked_chrs_def)
  finally show ?case .
qed

text \<open>
  The count that \<^verbatim>\<open>_variant_set_test_\<close> returns, against the count in the words of the
  specification: the code counts the p-values that are numbers below the threshold,
  and with them the p-values that are \<^verbatim>\<open>-inf\<close>.
\<close>

lemma sig_count_refines:
  "np_nansum (below_thresh sig_thresh pvalues)
     = spec_sig_count sig_thresh pvalues + neg_inf_count pvalues"
proof -
  let ?A = "{d. d < length pvalues \<and> (\<exists>v. pvalues ! d = Finite v \<and> v < sig_thresh)}"
  let ?B = "{d. d < length pvalues \<and> pvalues ! d = NegInf}"
  have "np_nansum (below_thresh sig_thresh pvalues)
          = length (filter (\<lambda>p. float_less p sig_thresh) pvalues)"
    by (simp add: np_nansum_def below_thresh_def filter_map comp_def)
  also have "\<dots> = card {d. d < length pvalues \<and> float_less (pvalues ! d) sig_thresh}"
    by (rule length_filter_conv_card)
  also have "{d. d < length pvalues \<and> float_less (pvalues ! d) sig_thresh} = ?A \<union> ?B"
  proof -
    have "float_less p sig_thresh \<longleftrightarrow> (\<exists>v. p = Finite v \<and> v < sig_thresh) \<or> p = NegInf" for p
      by (cases p) (simp_all add: float_less_def)
    then show ?thesis by auto
  qed
  also have "card (?A \<union> ?B) = card ?A + card ?B"
    by (rule card_Un_disjoint) auto
  finally show ?thesis
    by (simp add: spec_sig_count_def neg_inf_count_def)
qed

lemma variant_set_test_single_spec:
  "variant_set_test_single sig_thresh vset_test chr
     = (\<lambda>numeric_idx. spec_sig_count sig_thresh (vset_test chr numeric_idx)
                        + neg_inf_count (vset_test chr numeric_idx))"
  by (rule ext) (simp add: variant_set_test_single_def sig_count_refines Let_def)

lemma bin_sig_counts_code:
  "bin_sig_counts sig_thresh vset_test chr_gene_numeric_idxs cmac_bin =
     concat (map (\<lambda>(chr, gene_numeric_idxs).
                    concat (map (\<lambda>(bin, gene_numeric_idx).
                                   if bin = cmac_bin
                                   then map (variant_set_test_single sig_thresh vset_test chr)
                                          gene_numeric_idx
                                   else [])
                                gene_numeric_idxs))
                 chr_gene_numeric_idxs)"
  unfolding bin_sig_counts_def variant_set_test_single_spec ..

lemma picked_variant_set_test:
  "picked_chrs b (variant_set_test sig_thresh vset_test chr_gene_numeric_idxs)
     = bin_sig_counts sig_thresh vset_test chr_gene_numeric_idxs b"
proof -
  have inner: "picked b (map (\<lambda>(bin, gene_numeric_idx).
                   (bin, map (variant_set_test_single sig_thresh vset_test chr) gene_numeric_idx)) g)
        = concat (map (\<lambda>(bin, gene_numeric_idx).
                         if bin = b
                         then map (variant_set_test_single sig_thresh vset_test chr) gene_numeric_idx
                         else []) g)" for chr g
    by (induction g) auto
  show ?thesis
    unfolding picked_chrs_def variant_set_test_def bin_sig_counts_code
    by (induction chr_gene_numeric_idxs) (auto simp: inner)
qed

lemma distinct_all_bins: "distinct all_bins"
  by (simp add: all_bins_def)

lemma run_eq:
  assumes "list_all (\<lambda>(chr, g). list_all (\<lambda>(bin, sets). bin \<in> set all_bins) g)
             chr_gene_numeric_idxs"
  shows "run sig_thresh n_voxels vset_test chr_gene_numeric_idxs sample_id
           = Inr (sample_id,
                  map (\<lambda>cmac_bin.
                         (bin_label cmac_bin,
                          float_div (np_mean (bin_sig_counts sig_thresh vset_test
                                                chr_gene_numeric_idxs cmac_bin)) n_voxels))
                      all_bins)"
proof -
  let ?chrs = "variant_set_test sig_thresh vset_test chr_gene_numeric_idxs"
  from assms
  have keys: "list_all (\<lambda>(chr, items). list_all (\<lambda>(b, xs). b \<in> set all_bins) items) ?chrs"
    unfolding variant_set_test_def list_all_iff by fastforce
  from extend_chrs_keyed[OF distinct_all_bins keys, of "\<lambda>b. []"]
  have "extend_chrs (map (\<lambda>cmac_bin. (cmac_bin, [])) all_bins) ?chrs
          = Inr (map (\<lambda>b. (b, bin_sig_counts sig_thresh vset_test chr_gene_numeric_idxs b))
                   all_bins)"
    by (simp add: picked_variant_set_test)
  then show ?thesis
    by (simp add: run_def Let_def comp_def)
qed

lemma float_div_np_mean:
  "0 < n_voxels \<Longrightarrow> float_div (np_mean counts) n_voxels = bin_rate counts n_voxels"
  by (simp add: float_div_def np_mean_def bin_rate_def)

lemma np_nansum_le: "np_nansum bs \<le> length bs"
  by (simp add: np_nansum_def)

lemma variant_set_test_single_le:
  "variant_set_test_single sig_thresh vset_test chr numeric_idx
     \<le> length (vset_test chr numeric_idx)"
  using np_nansum_le[of "below_thresh sig_thresh (vset_test chr numeric_idx)"]
  by (simp add: variant_set_test_single_def below_thresh_def)

lemma set_counts_le:
  assumes "list_all (\<lambda>numeric_idx. length (vset_test chr numeric_idx) = n_voxels) sets"
  shows "list_all (\<lambda>c. c \<le> n_voxels)
           (map (variant_set_test_single sig_thresh vset_test chr) sets)"
  using assms
proof (induction sets)
  case Nil
  then show ?case by simp
next
  case (Cons numeric_idx sets)
  from Cons.prems have "length (vset_test chr numeric_idx) = n_voxels" by simp
  with variant_set_test_single_le[of sig_thresh vset_test chr numeric_idx]
  have "variant_set_test_single sig_thresh vset_test chr numeric_idx \<le> n_voxels" by simp
  with Cons show ?case by simp
qed

lemma chr_counts_le:
  assumes "list_all (\<lambda>(bin, sets).
             list_all (\<lambda>numeric_idx. length (vset_test chr numeric_idx) = n_voxels) sets) g"
  shows "list_all (\<lambda>c. c \<le> n_voxels)
           (concat (map (\<lambda>(bin, gene_numeric_idx).
                           if bin = cmac_bin
                           then map (variant_set_test_single sig_thresh vset_test chr)
                                  gene_numeric_idx
                           else []) g))"
  using assms
proof (induction g)
  case Nil
  then show ?case by simp
next
  case (Cons item g)
  obtain bin sets where item: "item = (bin, sets)" by (cases item)
  with Cons.prems
  have "list_all (\<lambda>numeric_idx. length (vset_test chr numeric_idx) = n_voxels) sets"
    by simp
  from set_counts_le[where vset_test = vset_test and chr = chr and sig_thresh = sig_thresh, OF this]
    Cons item show ?case by simp
qed

lemma bin_sig_counts_le:
  assumes "list_all (\<lambda>(chr, g). list_all (\<lambda>(bin, sets).
             list_all (\<lambda>numeric_idx. length (vset_test chr numeric_idx) = n_voxels) sets) g)
             chr_gene_numeric_idxs"
  shows "list_all (\<lambda>c. c \<le> n_voxels)
           (bin_sig_counts sig_thresh vset_test chr_gene_numeric_idxs cmac_bin)"
  using assms
proof (induction chr_gene_numeric_idxs)
  case Nil
  then show ?case by (simp add: bin_sig_counts_code)
next
  case (Cons item rest)
  obtain chr g where item: "item = (chr, g)" by (cases item)
  with Cons.prems have "list_all (\<lambda>(bin, sets).
             list_all (\<lambda>numeric_idx. length (vset_test chr numeric_idx) = n_voxels) sets) g"
    by simp
  from chr_counts_le[where vset_test = vset_test and chr = chr and sig_thresh = sig_thresh
      and cmac_bin = cmac_bin, OF this] Cons item show ?case
    by (simp add: bin_sig_counts_code)
qed

lemma sum_list_bounded:
  "list_all (\<lambda>c. c \<le> n) xs \<Longrightarrow> sum_list xs \<le> length xs * (n::nat)"
  by (induction xs) auto

lemma rate_in_unit_interval:
  assumes "xs \<noteq> []" and "0 < n" and "list_all (\<lambda>c. c \<le> n) xs"
  shows "bin_rate xs n = Some (real (sum_list xs) / real (length xs) / real n)
         \<and> 0 \<le> real (sum_list xs) / real (length xs) / real n
         \<and> real (sum_list xs) / real (length xs) / real n \<le> 1"
proof -
  from assms(1) have len: "0 < length xs" by simp
  from sum_list_bounded[OF assms(3)] have "real (sum_list xs) \<le> real (length xs * n)"
    using of_nat_le_iff by blast
  then have "real (sum_list xs) \<le> real (length xs) * real n" by simp
  with len assms(2) have "real (sum_list xs) / real (length xs) / real n \<le> 1"
    by (simp add: divide_le_eq)
  with assms(1,2) show ?thesis by (simp add: bin_rate_def)
qed

text \<open>
  Claim C6, as the code has it. Let every bin of the masks be one of the fixed bins, let
  the variant-set test return one p-value per trait dimension, and let there be at
  least one trait dimension. Then the run returns one row whose column for a bin,
  labelled \<open><lo>_<hi>\<close>, holds the mean, over all variant sets of that bin concatenated
  across the chromosomes, of the number of trait dimensions whose p-value is a number
  below the threshold or is \<^verbatim>\<open>-inf\<close> (NaN and \<^verbatim>\<open>inf\<close> are not counted), divided by
  \<open>n_voxels\<close>. For a bin with at least one variant set this value is a number between
  0 and 1; for a bin with no variant set it is NaN.
\<close>

theorem run_reports_bin_rates:
  assumes "0 < n_voxels"
    and "list_all (\<lambda>(chr, g). list_all (\<lambda>(bin, sets). bin \<in> set all_bins) g)
           chr_gene_numeric_idxs"
    and "list_all (\<lambda>(chr, g). list_all (\<lambda>(bin, sets).
           list_all (\<lambda>numeric_idx. length (vset_test chr numeric_idx) = n_voxels) sets) g)
           chr_gene_numeric_idxs"
  shows "run sig_thresh n_voxels vset_test chr_gene_numeric_idxs sample_id
           = Inr (sample_id,
                  map (\<lambda>cmac_bin.
                         (bin_label cmac_bin,
                          bin_rate (bin_sig_counts sig_thresh vset_test
                                      chr_gene_numeric_idxs cmac_bin) n_voxels))
                      all_bins)
         \<and> (\<forall>cmac_bin.
               bin_sig_counts sig_thresh vset_test chr_gene_numeric_idxs cmac_bin \<noteq> [] \<longrightarrow>
               (\<exists>rate.
                  bin_rate (bin_sig_counts sig_thresh vset_test
                              chr_gene_numeric_idxs cmac_bin) n_voxels = Some rate
                  \<and> 0 \<le> rate \<and> rate \<le> 1))
         \<and> (\<forall>cmac_bin.
               bin_sig_counts sig_thresh vset_test chr_gene_numeric_idxs cmac_bin = [] \<longrightarrow>
               bin_rate (bin_sig_counts sig_thresh vset_test
                           chr_gene_numeric_idxs cmac_bin) n_voxels = None)
         \<and> (\<forall>lo hi. bin_label (lo, hi) = str_int lo @ ''_'' @ str_int hi)
         \<and> map bin_label all_bins =
               [''2_2'', ''3_3'', ''4_4'', ''5_5'', ''6_7'', ''8_9'', ''10_11'', ''12_14'',
                ''15_20'', ''21_30'', ''31_60'', ''61_100'', ''101_500'', ''501_1000'']"
proof (intro conjI allI impI)
  show "run sig_thresh n_voxels vset_test chr_gene_numeric_idxs sample_id
           = Inr (sample_id,
                  map (\<lambda>cmac_bin.
                         (bin_label cmac_bin,
                          bin_rate (bin_sig_counts sig_thresh vset_test
                                      chr_gene_numeric_idxs cmac_bin) n_voxels))
                      all_bins)"
    using run_eq[OF assms(2), of sig_thresh n_voxels vset_test sample_id]
    by (simp only: float_div_np_mean[OF assms(1)])
next
  fix cmac_bin
  assume ne: "bin_sig_counts sig_thresh vset_test chr_gene_numeric_idxs cmac_bin \<noteq> []"
  from rate_in_unit_interval[OF ne assms(1)
      bin_sig_counts_le[where vset_test = vset_test and sig_thresh = sig_thresh
        and cmac_bin = cmac_bin, OF assms(3)]]
  show "\<exists>rate.
          bin_rate (bin_sig_counts sig_thresh vset_test
                      chr_gene_numeric_idxs cmac_bin) n_voxels = Some rate
          \<and> 0 \<le> rate \<and> rate \<le> 1"
    by blast
next
  fix cmac_bin
  assume "bin_sig_counts sig_thresh vset_test chr_gene_numeric_idxs cmac_bin = []"
  then show "bin_rate (bin_sig_counts sig_thresh vset_test
                         chr_gene_numeric_idxs cmac_bin) n_voxels = None"
    by (simp add: bin_rate_def)
next
  fix lo hi
  show "bin_label (lo, hi) = str_int lo @ ''_'' @ str_int hi"
    by (simp add: bin_label_def)
next
  show "map bin_label all_bins =
          [''2_2'', ''3_3'', ''4_4'', ''5_5'', ''6_7'', ''8_9'', ''10_11'', ''12_14'',
           ''15_20'', ''21_30'', ''31_60'', ''61_100'', ''101_500'', ''501_1000'']"
    by (rule bin_labels)
qed

lemma example_counts:
  "bin_sig_counts (1 / 400000) example_vset_test example_masks (2, 2) = [1, 1, 1]"
  "bin_sig_counts (1 / 400000) example_vset_test example_masks (3, 3) = [1]"
  "bin_sig_counts (1 / 400000) example_vset_test example_masks (4, 4) = []"
  by (simp_all add: bin_sig_counts_code example_masks_def example_vset_test_def
        variant_set_test_single_def below_thresh_def np_nansum_def float_less_def)

theorem run_reports_bin_rates_witness:
  "(0::nat) < 2
   \<and> list_all (\<lambda>(chr, g). list_all (\<lambda>(bin, sets). bin \<in> set all_bins) g) example_masks
   \<and> list_all (\<lambda>(chr, g). list_all (\<lambda>(bin, sets).
         list_all (\<lambda>numeric_idx. length (example_vset_test chr numeric_idx) = 2) sets) g)
         example_masks
   \<and> bin_sig_counts (1 / 400000) example_vset_test example_masks (2, 2) = [1, 1, 1]
   \<and> (\<exists>row. run (1 / 400000) 2 example_vset_test example_masks 0 = Inr (0, row)
          \<and> take 3 row = [(''2_2'', Some (1 / 2)), (''3_3'', Some (1 / 2)), (''4_4'', None)])
   \<and> bin_rate (bin_sig_counts (1 / 400000) example_vset_test example_masks (2, 2)) 2
       = Some (1 / 2)"
proof -
  have h1: "(0::nat) < 2" by simp
  have h2: "list_all (\<lambda>(chr, g). list_all (\<lambda>(bin, sets). bin \<in> set all_bins) g) example_masks"
    by (simp add: example_masks_def all_bins_def)
  have h3: "list_all (\<lambda>(chr, g). list_all (\<lambda>(bin, sets).
         list_all (\<lambda>numeric_idx. length (example_vset_test chr numeric_idx) = 2) sets) g)
         example_masks"
    by (simp add: example_masks_def example_vset_test_def)
  note inst = run_reports_bin_rates[where sig_thresh = "1 / 400000" and sample_id = 0, OF h1 h2 h3]
  from inst have "run (1 / 400000) 2 example_vset_test example_masks 0
      = Inr (0, map (\<lambda>cmac_bin.
                       (bin_label cmac_bin,
                        bin_rate (bin_sig_counts (1 / 400000) example_vset_test
                                    example_masks cmac_bin) 2))
                    all_bins)"
    by blast
  moreover have "take 3 (map (\<lambda>cmac_bin.
                       (bin_label cmac_bin,
                        bin_rate (bin_sig_counts (1 / 400000) example_vset_test
                                    example_masks cmac_bin) 2))
                    all_bins)
      = [(''2_2'', Some (1 / 2)), (''3_3'', Some (1 / 2)), (''4_4'', None)]"
  proof -
    have l: "bin_label (2, 2) = ''2_2''" "bin_label (3, 3) = ''3_3''" "bin_label (4, 4) = ''4_4''"
      by code_simp+
    show ?thesis
      by (simp add: all_bins_def example_counts l bin_rate_def)
  qed
  moreover have "bin_rate (bin_sig_counts (1 / 400000) example_vset_test
                    example_masks (2, 2)) 2 = Some (1 / 2)"
    by (simp add: example_counts bin_rate_def)
  ultimately show ?thesis using h1 h2 h3 example_counts(1) by simp
qed

text \<open>
  The claim as stated fails for a test whose p-value is \<^verbatim>\<open>-inf\<close>, with one trait
  dimension and one variant set in the bin \<open>(2, 2)\<close>: no p-value is a number below the
  threshold, and the run reports the rate 1 for that bin. It reports NaN, which is not
  a value in \<open>[0, 1]\<close>, for every other bin, since they have no variant set.
\<close>

theorem run_counts_neg_inf:
  "spec_sig_count (1 / 400000) (neg_inf_vset_test 2 [0, 1]) = 0
   \<and> run (1 / 400000) 1 neg_inf_vset_test [(2, [((2, 2), [[0, 1]])])] 7
       = Inr (7, [(''2_2'', Some 1), (''3_3'', None), (''4_4'', None), (''5_5'', None),
                  (''6_7'', None), (''8_9'', None), (''10_11'', None), (''12_14'', None),
                  (''15_20'', None), (''21_30'', None), (''31_60'', None),
                  (''61_100'', None), (''101_500'', None), (''501_1000'', None)])"
proof -
  have "{d. d < length [NegInf] \<and> (\<exists>v. [NegInf] ! d = Finite v \<and> v < 1 / 400000)} = {}"
    by auto
  then have s: "spec_sig_count (1 / 400000) (neg_inf_vset_test 2 [0, 1]) = 0"
    by (simp only: spec_sig_count_def neg_inf_vset_test_def card.empty)
  have keys: "list_all (\<lambda>(chr, g). list_all (\<lambda>(bin, sets). bin \<in> set all_bins) g)
                [(2::nat, [((2::int, 2::int), [[0::nat, 1]])])]"
    by (simp add: all_bins_def)
  have counts: "bin_sig_counts (1 / 400000) neg_inf_vset_test [(2, [((2, 2), [[0, 1]])])] b
                  = (if b = (2, 2) then [1] else [])" for b
    by (simp add: bin_sig_counts_code neg_inf_vset_test_def variant_set_test_single_def
          below_thresh_def np_nansum_def float_less_def)
  have r: "run (1 / 400000) 1 neg_inf_vset_test [(2, [((2, 2), [[0, 1]])])] 7
       = Inr (7, [(''2_2'', Some 1), (''3_3'', None), (''4_4'', None), (''5_5'', None),
                  (''6_7'', None), (''8_9'', None), (''10_11'', None), (''12_14'', None),
                  (''15_20'', None), (''21_30'', None), (''31_60'', None),
                  (''61_100'', None), (''101_500'', None), (''501_1000'', None)])"
    unfolding run_eq[OF keys] counts
    using bin_labels by (simp add: all_bins_def np_mean_def float_div_def)
  from s r show ?thesis by (rule conjI)
qed

section \<open>The chromosomes of a run\<close>

lemma py_range_odd: "py_range 1 23 2 = [1, 3, 5, 7, 9, 11, 13, 15, 17, 19, 21]"
  by code_simp

lemma py_range_even: "py_range 2 23 2 = [2, 4, 6, 8, 10, 12, 14, 16, 18, 20, 22]"
  by code_simp

text \<open>
  Claim C10. For arguments that pass the required-input checks, the chromosomes of the
  run are the odd ones 1, 3, ..., 21 when a causal-index input is given (power mode) and
  the even ones 2, 4, ..., 22 otherwise (null mode).
\<close>

theorem check_input_chr_list:
  assumes "sparse_genotype a \<noteq> None" and "null_model a \<noteq> None" and "perm a \<noteq> None"
  shows "check_input a =
           Inr (if causal_idx a \<noteq> None
                then [1, 3, 5, 7, 9, 11, 13, 15, 17, 19, 21]
                else [2, 4, 6, 8, 10, 12, 14, 16, 18, 20, 22])"
  unfolding check_input_def py_range_odd py_range_even using assms by simp

theorem check_input_chr_list_witness:
  "sparse_genotype power_args \<noteq> None \<and> null_model power_args \<noteq> None
   \<and> perm power_args \<noteq> None \<and> causal_idx power_args \<noteq> None
   \<and> check_input power_args = Inr [1, 3, 5, 7, 9, 11, 13, 15, 17, 19, 21]
   \<and> sparse_genotype null_args \<noteq> None \<and> null_model null_args \<noteq> None
   \<and> perm null_args \<noteq> None \<and> causal_idx null_args = None
   \<and> check_input null_args = Inr [2, 4, 6, 8, 10, 12, 14, 16, 18, 20, 22]"
proof -
  have p: "sparse_genotype power_args \<noteq> None" "null_model power_args \<noteq> None"
    "perm power_args \<noteq> None" "causal_idx power_args \<noteq> None"
    by (simp_all add: power_args_def)
  have n: "sparse_genotype null_args \<noteq> None" "null_model null_args \<noteq> None"
    "perm null_args \<noteq> None" "causal_idx null_args = None"
    by (simp_all add: null_args_def power_args_def)
  from check_input_chr_list[OF p(1,2,3)] p(4)
  have rp: "check_input power_args = Inr [1, 3, 5, 7, 9, 11, 13, 15, 17, 19, 21]" by simp
  from check_input_chr_list[OF n(1,2,3)] n(4)
  have rn: "check_input null_args = Inr [2, 4, 6, 8, 10, 12, 14, 16, 18, 20, 22]" by simp
  from p n rp rn show ?thesis by blast
qed

end
